theory Spec2Isabelle
  imports Main
begin

section \<open>ToyShell: a line-oriented command shell on a serial stream\<close>

text \<open>
  The development follows \<^verbatim>\<open>ToyShell.h\<close> and \<^verbatim>\<open>ToyShell.cpp\<close>. Bytes are
  \<^typ>\<open>char\<close>, memory regions are byte lists, pointers into the line buffer are offsets
  from its first byte, and a C string is read from a region up to its first NUL byte.
\<close>

subsection \<open>Configuration constants\<close>

definition SHELL_LINE_MAX :: nat where
  "SHELL_LINE_MAX = 2048"

definition SHELL_ARG_MAX :: nat where
  "SHELL_ARG_MAX = 32"

abbreviation NUL :: char where
  "NUL \<equiv> CHR 0x00"

abbreviation NL :: char where
  "NL \<equiv> CHR 0x0A"

abbreviation SP :: char where
  "SP \<equiv> CHR 0x20"

subsection \<open>The transport (Arduino \<^verbatim>\<open>Stream\<close>)\<close>

text \<open>
  The transport is an external collaborator. Its state is the bytes still to arrive,
  grouped in bursts (one burst is what reaches a read before its timeout expires; an
  empty burst is a read that times out with nothing), the bytes written so far, and the
  read timeout. \<^verbatim>\<open>readBytes(buf, len)\<close> hands over at most \<^verbatim>\<open>len\<close> bytes of the next
  burst and leaves the rest of that burst for the next read.
\<close>

record transport =
  incoming :: "string list"
  outgoing :: string
  timeout :: nat

definition readBytes :: "nat \<Rightarrow> transport \<Rightarrow> string \<times> transport" where
  "readBytes len io =
     (case incoming io of
        [] \<Rightarrow> ([], io)
      | c # cs \<Rightarrow>
          (take len c,
           io\<lparr>incoming := (if length c \<le> len then cs else drop len c # cs)\<rparr>))"

definition print :: "string \<Rightarrow> transport \<Rightarrow> transport" where
  "print txt io = io\<lparr>outgoing := outgoing io @ txt\<rparr>"

definition setTimeout :: "nat \<Rightarrow> transport \<Rightarrow> transport" where
  "setTimeout ms io = io\<lparr>timeout := ms\<rparr>"

text \<open>\<^verbatim>\<open>prompt\<close> (ToyShell.cpp, lines 58 to 61).\<close>

definition prompt :: "transport \<Rightarrow> transport" where
  "prompt io = print ''shell> '' (setTimeout 20 io)"

subsection \<open>C library routines on byte regions\<close>

fun index_of :: "char \<Rightarrow> string \<Rightarrow> nat option" where
  "index_of c [] = None"
| "index_of c (x # xs) = (if x = c then Some 0 else map_option Suc (index_of c xs))"

text \<open>\<^verbatim>\<open>memchr(mem + p, c, n)\<close>: the offset of the first \<open>c\<close> among \<open>n\<close> bytes from \<open>p\<close>.\<close>

definition memchr :: "string \<Rightarrow> nat \<Rightarrow> char \<Rightarrow> nat \<Rightarrow> nat option" where
  "memchr mem p c n = map_option (\<lambda>k. p + k) (index_of c (take n (drop p mem)))"

text \<open>The C string that starts at offset \<open>p\<close>, and its length.\<close>

definition cstr :: "string \<Rightarrow> nat \<Rightarrow> string" where
  "cstr mem p = takeWhile (\<lambda>c. c \<noteq> NUL) (drop p mem)"

definition strlen :: "string \<Rightarrow> nat \<Rightarrow> nat" where
  "strlen mem p = length (cstr mem p)"

text \<open>\<^verbatim>\<open>memmove(mem + dst, mem + src, n)\<close>.\<close>

definition memmove :: "string \<Rightarrow> nat \<Rightarrow> nat \<Rightarrow> nat \<Rightarrow> string" where
  "memmove mem dst src n = take dst mem @ take n (drop src mem) @ drop (dst + n) mem"

text \<open>The bytes a read deposits at offset \<open>p\<close>.\<close>

definition write_bytes :: "string \<Rightarrow> nat \<Rightarrow> string \<Rightarrow> string" where
  "write_bytes mem p bytes = take p mem @ bytes @ drop (p + length bytes) mem"

text \<open>
  \<^verbatim>\<open>strcmp\<close> on the contents of two C strings (neither holds a NUL byte): bytes compare
  as unsigned values, and a proper prefix is smaller.
\<close>

fun strcmp :: "string \<Rightarrow> string \<Rightarrow> int" where
  "strcmp [] [] = 0"
| "strcmp [] (y # ys) = - 1"
| "strcmp (x # xs) [] = 1"
| "strcmp (x # xs) (y # ys) =
     (if x = y then strcmp xs ys else int (of_char x) - int (of_char y))"

text \<open>\<^verbatim>\<open>printf("%d", n)\<close> for a non-negative \<open>n\<close>.\<close>

definition digit :: "nat \<Rightarrow> char" where
  "digit d = char_of (of_char (CHR ''0'') + d)"

function decimal :: "nat \<Rightarrow> string" where
  "decimal n = (if n < 10 then [digit n] else decimal (n div 10) @ [digit (n mod 10)])"
  by pat_completeness auto
termination
  by (relation "measure id") auto

declare decimal.simps [simp del]

subsection \<open>Commands and the shell object\<close>

datatype fault = NullPointer | TableOverrun | BufferOverrun

type_synonym handler = "nat \<Rightarrow> string list \<Rightarrow> transport \<Rightarrow> int \<times> transport"

text \<open>
  \<^verbatim>\<open>struct Command\<close>: both members are pointers and may be null, as they are in the
  terminating entry \<^verbatim>\<open>{nullptr, nullptr}\<close>. A handler receives \<open>argc\<close>, the argument
  strings and the transport; it returns a status and the transport as it left it.
\<close>

record Command =
  name :: "string option"
  entry :: "handler option"

text \<open>
  \<^verbatim>\<open>class Shell\<close>: the data members. \<open>stream\<close> is the pointer to the transport (an
  identifier of the port, \<open>None\<close> for \<^verbatim>\<open>nullptr\<close>); \<open>argv\<close> holds offsets into \<open>input\<close>.
\<close>

record Shell =
  stream :: "nat option"
  commands :: "Command list"
  cmd_count :: nat
  f_begin :: bool
  f_end :: bool
  input :: string
  argv :: "nat list"

text \<open>
  The two constructors (ToyShell.h, lines 114 to 130). The arrays \<open>input\<close> and \<open>argv\<close>
  are not initialised: they hold whatever the memory held, here \<open>mem_input\<close> and
  \<open>mem_argv\<close>. The loop of the second constructor walks the table until it meets a null
  name; walking off the end of the table is a fault.
\<close>

definition Shell_counted :: "string \<Rightarrow> nat list \<Rightarrow> Command list \<Rightarrow> nat \<Rightarrow> Shell" where
  "Shell_counted mem_input mem_argv cmds count =
     \<lparr>stream = None, commands = cmds, cmd_count = count, f_begin = False, f_end = False,
      input = mem_input, argv = mem_argv\<rparr>"

function count_commands :: "Command list \<Rightarrow> nat \<Rightarrow> fault + nat" where
  "count_commands cmds n =
     (if n < length cmds
      then (if name (cmds ! n) \<noteq> None then count_commands cmds (n + 1) else Inr n)
      else Inl TableOverrun)"
  by pat_completeness auto
termination
  by (relation "measure (\<lambda>(cmds, n). length cmds - n)") auto

declare count_commands.simps [simp del]

definition Shell_terminated :: "string \<Rightarrow> nat list \<Rightarrow> Command list \<Rightarrow> fault + Shell" where
  "Shell_terminated mem_input mem_argv cmds =
     (case count_commands cmds 0 of
        Inl f \<Rightarrow> Inl f
      | Inr n \<Rightarrow> Inr (Shell_counted mem_input mem_argv cmds n))"

subsection \<open>Command lookup\<close>

text \<open>\<^verbatim>\<open>cmp\<close> (ToyShell.cpp, lines 63 to 67): \<^verbatim>\<open>strcmp\<close> of the key with the entry's name.\<close>

definition cmp :: "string \<Rightarrow> Command \<Rightarrow> fault + int" where
  "cmp key e = (case name e of None \<Rightarrow> Inl NullPointer | Some n \<Rightarrow> Inr (strcmp key n))"

text \<open>
  \<^verbatim>\<open>bsearch\<close> of the C library, as the usual halving search over the entries
  \<open>l \<le> idx < u\<close>. Beside the index found it returns the indices it handed to \<^verbatim>\<open>cmp\<close>,
  in order, so that the comparisons can be counted.
\<close>

function bsearch_loop ::
  "string \<Rightarrow> Command list \<Rightarrow> nat \<Rightarrow> nat \<Rightarrow> nat list \<Rightarrow> fault + (nat option \<times> nat list)"
where
  "bsearch_loop key base l u probes =
     (if l < u then
        (let idx = (l + u) div 2 in
         if length base \<le> idx then Inl TableOverrun
         else (case cmp key (base ! idx) of
                 Inl f \<Rightarrow> Inl f
               | Inr c \<Rightarrow>
                   if c < 0 then bsearch_loop key base l idx (probes @ [idx])
                   else if 0 < c then bsearch_loop key base (idx + 1) u (probes @ [idx])
                   else Inr (Some idx, probes @ [idx])))
      else Inr (None, probes))"
  by pat_completeness auto
termination
  by (relation "measure (\<lambda>(key, base, l, u, probes). u - l)") auto

declare bsearch_loop.simps [simp del]

definition bsearch :: "string \<Rightarrow> Command list \<Rightarrow> nat \<Rightarrow> fault + (nat option \<times> nat list)" where
  "bsearch key base nmemb = bsearch_loop key base 0 nmemb []"

subsection \<open>The read, tokenize and dispatch loop\<close>

text \<open>
  The state of \<^verbatim>\<open>Shell::main\<close> between two passes of its loop: the shell object, the
  local write cursor \<open>bufhead\<close> (as the offset \<^verbatim>\<open>bufhead - input\<close>) and the transport
  that \<^verbatim>\<open>stream\<close> points to.
\<close>

record main_state = Shell +
  bufhead :: nat
  serial :: transport

text \<open>
  The tokenizer loop (ToyShell.cpp, lines 104 to 119), from the position \<open>i\<close> with
  \<open>argc\<close> tokens taken so far; \<open>e\<close> is the offset of the line's end.
\<close>

function tokenize ::
  "nat \<Rightarrow> nat \<Rightarrow> nat \<Rightarrow> nat list \<Rightarrow> string \<Rightarrow> transport \<Rightarrow> nat \<times> nat list \<times> string \<times> transport"
where
  "tokenize i e argc av buf io =
     (if i < e then
        (if argc < SHELL_ARG_MAX then
           (let av' = av[argc := i];
                buf' = (case memchr buf i SP (e - i) of
                          None \<Rightarrow> buf
                        | Some sp \<Rightarrow> buf[sp := NUL])
            in tokenize (i + strlen buf' i + 1) e (argc + 1) av' buf' io)
         else
           (argc, av, buf,
            print (''Too many arguments; discarding arguments after #''
                     @ decimal (SHELL_ARG_MAX - 1) @ [NL]) io))
      else (argc, av, buf, io))"
  by pat_completeness auto
termination
  by (relation "measure (\<lambda>(i, e, argc, av, buf, io). Suc e - i)") auto

declare tokenize.simps [simp del]

text \<open>
  Splitting the arguments (lines 100 to 119): the newline at offset \<open>e\<close> becomes the
  terminator, the line is echoed, and the tokenizer loop runs from the start of the
  buffer. The result is \<open>argc\<close> and the state with the buffer, \<open>argv\<close> and the transport
  as the loop left them.
\<close>

definition split_arguments :: "nat \<Rightarrow> main_state \<Rightarrow> nat \<times> main_state" where
  "split_arguments e s =
     (let buf2 = (input s)[e := NUL];
          io2 = print (cstr buf2 0 @ [NL]) (serial s);
          (argc, av3, buf3, io3) = tokenize 0 e 0 (argv s) buf2 io2
      in (argc, s\<lparr>input := buf3, argv := av3, serial := io3\<rparr>))"

text \<open>The argument strings a handler sees: the first \<open>argc\<close> entries of \<open>argv\<close>.\<close>

definition arguments :: "nat \<Rightarrow> main_state \<Rightarrow> string list" where
  "arguments argc s = map (cstr (input s)) (take argc (argv s))"

text \<open>Command execution (lines 123 to 129).\<close>

definition dispatch :: "nat \<Rightarrow> main_state \<Rightarrow> fault + transport" where
  "dispatch argc s =
     (case bsearch (cstr (input s) (argv s ! 0)) (commands s) (cmd_count s) of
        Inl f \<Rightarrow> Inl f
      | Inr (None, probes) \<Rightarrow>
          Inr (print (''shell: No such command: '' @ cstr (input s) (argv s ! 0) @ [NL])
                 (serial s))
      | Inr (Some idx, probes) \<Rightarrow>
          (case entry (commands s ! idx) of
             None \<Rightarrow> Inl NullPointer
           | Some h \<Rightarrow> Inr (snd (h argc (arguments argc s) (serial s)))))"

text \<open>
  Preparing for the next command (lines 132 to 139): \<open>bufhead s\<close> is still the cursor
  from before the read of \<open>count\<close> bytes, and \<open>e\<close> the offset of the line's end.
\<close>

definition prepare_next :: "nat \<Rightarrow> nat \<Rightarrow> main_state \<Rightarrow> main_state" where
  "prepare_next e count s =
     (let count' = bufhead s + count - (e + 1);
          buf4 = (if 0 < count' then memmove (input s) 0 (e + 1) count' else input s)
      in s\<lparr>input := buf4, bufhead := count', serial := prompt (serial s)\<rparr>)"

text \<open>
  One pass of the loop body (lines 83 to 139). A cursor beyond the buffer would make
  the length of the read wrap around and the read write past the array: that is the
  fault \<open>BufferOverrun\<close>. A line without arguments leaves the pass at line 122.
\<close>

definition iteration :: "main_state \<Rightarrow> fault + main_state" where
  "iteration s =
     (if SHELL_LINE_MAX < bufhead s then Inl BufferOverrun
      else
        (let (bytes, io1) = readBytes (SHELL_LINE_MAX - bufhead s) (serial s);
             count = length bytes;
             buf1 = write_bytes (input s) (bufhead s) bytes
         in case memchr buf1 (bufhead s) NL count of
              None \<Rightarrow>
                (if SHELL_LINE_MAX \<le> bufhead s + count
                 then Inr (s\<lparr>input := buf1, bufhead := 0,
                             serial := prompt
                               (print ([NL] @ ''shell: Command line too long; discarding'' @ [NL])
                                  io1)\<rparr>)
                 else Inr (s\<lparr>input := buf1, bufhead := bufhead s + count, serial := io1\<rparr>))
            | Some e \<Rightarrow>
                (let (argc, s3) = split_arguments e (s\<lparr>input := buf1, serial := io1\<rparr>)
                 in if argc = 0 then Inr s3
                    else (case dispatch argc s3 of
                            Inl f \<Rightarrow> Inl f
                          | Inr io4 \<Rightarrow> Inr (prepare_next e count (s3\<lparr>serial := io4\<rparr>))))))"

text \<open>Entry into the loop (lines 74 and 79) and a bounded number of passes.\<close>

definition main_enter :: "Shell \<Rightarrow> transport \<Rightarrow> main_state" where
  "main_enter sh io = Shell.extend sh \<lparr>bufhead = 0, serial = prompt io\<rparr>"

fun passes :: "nat \<Rightarrow> main_state \<Rightarrow> fault + main_state" where
  "passes 0 s = Inr s"
| "passes (Suc n) s = (case iteration s of Inl f \<Rightarrow> Inl f | Inr s' \<Rightarrow> passes n s')"

subsection \<open>Sample objects\<close>

text \<open>A shell without commands on zeroed memory, and a transport with given bursts.\<close>

definition demo_io :: "string list \<Rightarrow> transport" where
  "demo_io bursts = \<lparr>incoming = bursts, outgoing = [], timeout = 0\<rparr>"

definition demo_shell :: Shell where
  "demo_shell =
     Shell_counted (replicate SHELL_LINE_MAX NUL) (replicate SHELL_ARG_MAX 0) [] 0"

subsection \<open>Lines and their tokens\<close>

text \<open>
  A line read as text: \<open>split_sp\<close> cuts it at every single space (two spaces in a row
  enclose an empty piece) and \<open>join_sp\<close> puts pieces together with single spaces.
  \<open>terminated c toks\<close> is the byte sequence of the tokens, each followed by \<open>c\<close>;
  \<open>offsets p toks\<close> are the offsets at which these tokens start when the first one
  starts at \<open>p\<close>; \<open>store_args\<close> writes offsets into consecutive slots of \<open>argv\<close>.
\<close>

fun split_sp :: "string \<Rightarrow> string list" where
  "split_sp [] = [[]]"
| "split_sp (c # cs) =
     (if c = SP then [] # split_sp cs
      else (case split_sp cs of [] \<Rightarrow> [[c]] | t # ts \<Rightarrow> (c # t) # ts))"

fun join_sp :: "string list \<Rightarrow> string" where
  "join_sp [] = []"
| "join_sp [t] = t"
| "join_sp (t # u # ts) = t @ SP # join_sp (u # ts)"

definition terminated :: "char \<Rightarrow> string list \<Rightarrow> string" where
  "terminated c toks = concat (map (\<lambda>t. t @ [c]) toks)"

fun offsets :: "nat \<Rightarrow> string list \<Rightarrow> nat list" where
  "offsets p [] = []"
| "offsets p (t # ts) = p # offsets (p + length t + 1) ts"

fun store_args :: "nat list \<Rightarrow> nat \<Rightarrow> nat list \<Rightarrow> nat list" where
  "store_args av argc [] = av"
| "store_args av argc (p # ps) = store_args (av[argc := p]) (argc + 1) ps"

text \<open>The state in which \<open>bytes\<close> lie at the start of a zeroed line buffer.\<close>

definition loaded :: "string \<Rightarrow> main_state" where
  "loaded bytes =
     (main_enter demo_shell (demo_io []))
       \<lparr>input := bytes @ replicate (SHELL_LINE_MAX - length bytes) NUL\<rparr>"

text \<open>A line of 33 tokens: 32 times \<open>a\<close>, then \<open>b\<close>.\<close>

definition crowded :: string where
  "crowded = terminated SP (replicate 32 ''a'') @ ''b''"

text \<open>A line of 33 tokens whose 31st token holds a NUL byte.\<close>

definition nul_line :: string where
  "nul_line = terminated SP (replicate 30 ''t'') @ [CHR ''x'', NUL, CHR ''y'', SP, CHR ''z'', SP, CHR ''w'']"

text \<open>
  What can be observed of the outcome of one or more passes: the cursor, the first \<open>n\<close>
  bytes of the line buffer and everything written to the transport.
\<close>

definition snapshot :: "nat \<Rightarrow> fault + main_state \<Rightarrow> (nat \<times> string \<times> string) option" where
  "snapshot n r =
     (case r of
        Inl f \<Rightarrow> None
      | Inr s \<Rightarrow> Some (bufhead s, take n (input s), outgoing (serial s)))"

subsection \<open>Sorted command tables\<close>

text \<open>
  A table is sorted when every entry has a name and the names ascend strictly in the
  order of \<^verbatim>\<open>strcmp\<close>.
\<close>

definition names :: "Command list \<Rightarrow> string list" where
  "names tab = map (\<lambda>c. case name c of None \<Rightarrow> [] | Some n \<Rightarrow> n) tab"

definition sorted_table :: "Command list \<Rightarrow> bool" where
  "sorted_table tab \<longleftrightarrow>
     (\<forall>c\<in>set tab. name c \<noteq> None) \<and> sorted_wrt (\<lambda>a b. strcmp a b < 0) (names tab)"


text \<open>A table of two commands and the terminating entry.\<close>

definition echo_handler :: handler where
  "echo_handler argc av io = (0, print (join_sp (tl av) @ [NL]) io)"

definition help_handler :: handler where
  "help_handler argc av io = (0, print (''commands: echo help'' @ [NL]) io)"

definition demo_table :: "Command list" where
  "demo_table =
     [\<lparr>name = Some ''echo'', entry = Some echo_handler\<rparr>,
      \<lparr>name = Some ''help'', entry = Some help_handler\<rparr>,
      \<lparr>name = None, entry = None\<rparr>]"

text \<open>
  A shell on the first two entries of that table, its state at the entry of the loop
  when the transport delivers the line \<open>help\<close>, what the read leaves of the transport,
  and the outcome of splitting that line.
\<close>

definition table_shell :: Shell where
  "table_shell =
     Shell_counted (replicate SHELL_LINE_MAX NUL) (replicate SHELL_ARG_MAX 0) demo_table 2"

definition help_state :: main_state where
  "help_state = main_enter table_shell (demo_io [''help'' @ [NL]])"

definition help_read :: transport where
  "help_read = \<lparr>incoming = [], outgoing = ''shell> '', timeout = 20\<rparr>"

definition help_line :: "nat \<times> main_state" where
  "help_line =
     split_arguments (bufhead help_state + 4)
       (help_state\<lparr>input := write_bytes (input help_state) (bufhead help_state) (''help'' @ [NL]),
                   serial := help_read\<rparr>)"

subsection \<open>Starting and stopping the loop task\<close>

text \<open>
  The places at which the task that runs \<^verbatim>\<open>Shell::main\<close> can be: before the store to
  \<open>f_begin\<close> (line 70), at the test of the loop (line 81), inside the loop body (lines
  83 to 139), before each of the two stores of the cleanup (lines 143 and 144), before
  \<^verbatim>\<open>vTaskDelete\<close> (line 145), and deleted.
\<close>

datatype pc = AtEntry | AtTest | InBody | ClearEnd | ClearBegin | DeleteSelf | Gone

text \<open>The calls a user of the object makes: \<^verbatim>\<open>begin(stream)\<close> and \<^verbatim>\<open>end()\<close>.\<close>

datatype call = Begin nat | End

text \<open>
  The object together with the tasks created for it (in the order of their creation),
  the calls its user has still to make, whether the user is inside the waiting loop of
  \<^verbatim>\<open>end()\<close> (lines 54 and 55), and the number of loop bodies run so far.
\<close>

record system = Shell +
  tasks :: "pc list"
  pending :: "call list"
  polling :: bool
  rounds :: nat

definition launch :: "Shell \<Rightarrow> call list \<Rightarrow> system" where
  "launch sh cs = Shell.extend sh \<lparr>tasks = [], pending = cs, polling = False, rounds = 0\<rparr>"

text \<open>\<^verbatim>\<open>Shell::begin\<close> (lines 45 to 50); \<^verbatim>\<open>xTaskCreate\<close> adds a task at its entry.\<close>

definition begin_call :: "nat \<Rightarrow> system \<Rightarrow> system" where
  "begin_call port s =
     (if \<not> f_begin s then s\<lparr>stream := Some port, tasks := tasks s @ [AtEntry]\<rparr> else s)"

text \<open>
  One step of the user: a whole call of \<^verbatim>\<open>begin\<close>, or the store of \<^verbatim>\<open>end()\<close>
  (line 53), or one test of its waiting loop, which either ends the call or yields.
\<close>

definition user_step :: "system \<Rightarrow> system" where
  "user_step s =
     (case pending s of
        [] \<Rightarrow> s
      | Begin port # cs \<Rightarrow> (begin_call port s)\<lparr>pending := cs\<rparr>
      | End # cs \<Rightarrow>
          if \<not> polling s then s\<lparr>f_end := True, polling := True\<rparr>
          else if f_begin s then s
          else s\<lparr>pending := cs, polling := False\<rparr>)"

text \<open>
  One step of a task of \<^verbatim>\<open>Shell::main\<close>. The loop body neither reads nor writes the
  two flags; it is taken to end (the read times out, the handler returns).
\<close>

fun main_step :: "pc \<Rightarrow> system \<Rightarrow> pc \<times> system" where
  "main_step AtEntry s = (AtTest, s\<lparr>f_begin := True\<rparr>)"
| "main_step AtTest s = (if \<not> f_end s then (InBody, s) else (ClearEnd, s))"
| "main_step InBody s = (AtTest, s\<lparr>rounds := rounds s + 1\<rparr>)"
| "main_step ClearEnd s = (ClearBegin, s\<lparr>f_end := False\<rparr>)"
| "main_step ClearBegin s = (DeleteSelf, s\<lparr>f_begin := False\<rparr>)"
| "main_step DeleteSelf s = (Gone, s)"
| "main_step Gone s = (Gone, s)"

text \<open>The scheduler lets the user or one of the tasks take a step.\<close>

datatype actor = User | Task nat

fun step :: "actor \<Rightarrow> system \<Rightarrow> system" where
  "step User s = user_step s"
| "step (Task i) s =
     (if i < length (tasks s)
      then (case main_step (tasks s ! i) s of
              (pc', s') \<Rightarrow> s'\<lparr>tasks := (tasks s')[i := pc']\<rparr>)
      else s)"

fun run :: "actor list \<Rightarrow> system \<Rightarrow> system" where
  "run [] s = s"
| "run (a # sch) s = run sch (step a s)"

text \<open>The number of steps the task still needs to clear \<open>f_begin\<close> once \<open>f_end\<close> is set.\<close>

fun distance :: "pc \<Rightarrow> nat" where
  "distance InBody = 4"
| "distance AtTest = 3"
| "distance ClearEnd = 2"
| "distance ClearBegin = 1"
| "distance pc = 0"

text \<open>
  A task that has cleared the flags and has at most its own deletion left is retired.
  In \<open>others_retired i ps\<close> every task but the one at index \<open>i\<close> is retired: these
  are the tasks of earlier runs of a shell that was stopped and started again.
\<close>

definition others_retired :: "nat \<Rightarrow> pc list \<Rightarrow> bool" where
  "others_retired i ps \<longleftrightarrow>
     (\<forall>j<length ps. j \<noteq> i \<longrightarrow> ps ! j = DeleteSelf \<or> ps ! j = Gone)"

text \<open>
  The situations the system goes through while \<^verbatim>\<open>end()\<close> is called on a running loop
  whose task is the one at index \<open>i\<close>: before the store of line 53, while the user
  waits, and after the call has returned.
\<close>

definition before_stop :: "nat \<Rightarrow> system \<Rightarrow> bool" where
  "before_stop i s \<longleftrightarrow>
     pending s = [End] \<and> \<not> polling s \<and> f_begin s \<and> \<not> f_end s
     \<and> i < length (tasks s) \<and> (tasks s ! i = AtTest \<or> tasks s ! i = InBody)
     \<and> others_retired i (tasks s)"

definition during_stop :: "nat \<Rightarrow> pc \<Rightarrow> system \<Rightarrow> bool" where
  "during_stop i p s \<longleftrightarrow>
     pending s = [End] \<and> polling s \<and> i < length (tasks s) \<and> tasks s ! i = p
     \<and> p \<noteq> AtEntry \<and> others_retired i (tasks s)
     \<and> f_begin s = (0 < distance p) \<and> f_end s = (2 \<le> distance p)"

definition after_stop :: "nat \<Rightarrow> system \<Rightarrow> bool" where
  "after_stop i s \<longleftrightarrow>
     pending s = [] \<and> \<not> polling s \<and> \<not> f_begin s \<and> \<not> f_end s
     \<and> i < length (tasks s) \<and> (tasks s ! i = DeleteSelf \<or> tasks s ! i = Gone)
     \<and> others_retired i (tasks s)"

text \<open>
  A shell that was started, stopped and started again: the task of the first run has
  not yet deleted itself, the task of the second run is at its loop test, and the user
  is about to call \<^verbatim>\<open>end()\<close>.
\<close>

definition restarted_demo :: system where
  "restarted_demo =
     run [User, Task 0, Task 0, User, Task 0, Task 0, Task 0, Task 0, User, User, Task 1]
       (launch demo_shell [Begin 1, End, Begin 2, End])"

text \<open>The loop entered on a transport that delivers three bursts.\<close>

definition three_bursts :: main_state where
  "three_bursts = main_enter demo_shell (demo_io [''ab'', ''c'' @ [NL] @ ''d'', ''e''])"

text \<open>The same shell when the transport delivers the line \<open>foo\<close>.\<close>

definition foo_state :: main_state where
  "foo_state = main_enter table_shell (demo_io [''foo'' @ [NL]])"

definition foo_line :: "nat \<times> main_state" where
  "foo_line =
     split_arguments (bufhead foo_state + 3)
       (foo_state\<lparr>input := write_bytes (input foo_state) (bufhead foo_state) (''foo'' @ [NL]),
                  serial := help_read\<rparr>)"

section \<open>Properties\<close>

subsection \<open>Reads and byte regions\<close>

lemma readBytes_length: "length (fst (readBytes len io)) \<le> len"
  by (simp add: readBytes_def split: list.split)

lemma readBytes_outgoing: "outgoing (snd (readBytes len io)) = outgoing io"
  by (simp add: readBytes_def split: list.split)

lemma length_write_bytes:
  "p + length bytes \<le> length mem \<Longrightarrow> length (write_bytes mem p bytes) = length mem"
  by (simp add: write_bytes_def)

lemma index_of_None: "index_of c xs = None \<longleftrightarrow> c \<notin> set xs"
  by (induction xs) auto

lemma index_of_Some:
  "index_of c xs = Some k \<Longrightarrow> k < length xs \<and> xs ! k = c \<and> c \<notin> set (take k xs)"
  by (induction xs arbitrary: k) (auto split: if_splits)

lemma index_of_append:
  "c \<notin> set xs \<Longrightarrow> index_of c (xs @ c # ys) = Some (length xs)"
  by (induction xs) auto

lemma region_write_bytes:
  "p \<le> length mem \<Longrightarrow> take (length bytes) (drop p (write_bytes mem p bytes)) = bytes"
  by (simp add: write_bytes_def)

lemma memchr_write_bytes:
  "p \<le> length mem \<Longrightarrow>
   memchr (write_bytes mem p bytes) p c (length bytes)
     = map_option (\<lambda>k. p + k) (index_of c bytes)"
  by (simp add: memchr_def region_write_bytes)

subsection \<open>Overflow of the line buffer\<close>

text \<open>
  Claim C5. When a read brings the write cursor to exactly \<open>SHELL_LINE_MAX\<close> and no
  newline is among the bytes just read, the pass succeeds (the loop goes on), the
  transport receives the "line too long" diagnostic followed by the prompt and nothing
  else, no command is run (the pending input is what the read left), and the cursor is
  back at offset 0, so that all earlier contents are dropped and the next read may fill
  the whole buffer again.
\<close>

theorem overflow_discards:
  assumes "length (input s) = SHELL_LINE_MAX"
    and "readBytes (SHELL_LINE_MAX - bufhead s) (serial s) = (bytes, io1)"
    and "NL \<notin> set bytes"
    and "bufhead s + length bytes = SHELL_LINE_MAX"
  shows "\<exists>s'. iteration s = Inr s' \<and> bufhead s' = 0
           \<and> outgoing (serial s')
               = outgoing (serial s) @ [NL] @ ''shell: Command line too long; discarding''
                   @ [NL] @ ''shell> ''
           \<and> incoming (serial s') = incoming io1
           \<and> length (input s') = SHELL_LINE_MAX"
proof -
  have le: "bufhead s \<le> length (input s)"
    using assms by simp
  have none:
    "memchr (write_bytes (input s) (bufhead s) bytes) (bufhead s) NL (length bytes) = None"
    using assms(3) le by (simp add: memchr_write_bytes index_of_None)
  have out: "outgoing io1 = outgoing (serial s)"
    using assms(2) by (auto simp: readBytes_def split: list.splits)
  show ?thesis
    using assms none le out
    by (simp add: iteration_def Let_def prompt_def print_def setTimeout_def
          length_write_bytes)
qed

theorem overflow_discards_witness:
  "\<exists>s'. iteration (main_enter demo_shell (demo_io [replicate 2048 (CHR ''a'')])) = Inr s'
     \<and> bufhead s' = 0
     \<and> outgoing (serial s')
         = ''shell> '' @ [NL] @ ''shell: Command line too long; discarding'' @ [NL]
             @ ''shell> ''"
proof -
  let ?s = "main_enter demo_shell (demo_io [replicate 2048 (CHR ''a'')])"
  have h1: "length (input ?s) = SHELL_LINE_MAX"
    by (simp add: main_enter_def demo_shell_def Shell_counted_def Shell.extend_def)
  have h2: "readBytes (SHELL_LINE_MAX - bufhead ?s) (serial ?s)
              = (replicate 2048 (CHR ''a''),
                 \<lparr>incoming = [], outgoing = ''shell> '', timeout = 20\<rparr>)"
    by (simp add: main_enter_def demo_shell_def demo_io_def Shell_counted_def
          Shell.extend_def SHELL_LINE_MAX_def readBytes_def prompt_def print_def
          setTimeout_def)
  have h3: "NL \<notin> set (replicate 2048 (CHR ''a''))"
    by simp
  have h4: "bufhead ?s + length (replicate 2048 (CHR ''a'')) = SHELL_LINE_MAX"
    by (simp add: main_enter_def Shell.extend_def SHELL_LINE_MAX_def)
  have out: "outgoing (serial ?s) = ''shell> ''"
    by (simp add: main_enter_def demo_io_def Shell.extend_def prompt_def print_def
          setTimeout_def)
  from overflow_discards [OF h1 h2 h3 h4] out show ?thesis
    by auto
qed

subsection \<open>The tokenizer loop\<close>

lemma terminated_simps [simp]:
  "terminated c [] = []"
  "terminated c (t # ts) = t @ c # terminated c ts"
  by (simp_all add: terminated_def)

lemma length_terminated: "length (terminated c toks) = length (terminated d toks)"
  by (induction toks) auto

lemma cstr_at: "NUL \<notin> set t \<Longrightarrow> cstr (pre @ t @ NUL # post) (length pre) = t"
  by (auto simp: cstr_def takeWhile_tail)

lemma tokenize_length:
  "tokenize i e argc av buf io = (argc', av', buf', io') \<Longrightarrow>
   length av' = length av \<and> length buf' = length buf"
proof (induction i e argc av buf io rule: tokenize.induct)
  case (1 i e argc av buf io)
  show ?case
  proof (cases "i < e \<and> argc < SHELL_ARG_MAX")
    case True
    define av1 where "av1 = av[argc := i]"
    define buf1 where "buf1 = (case memchr buf i SP (e - i) of None \<Rightarrow> buf | Some sp \<Rightarrow> buf[sp := NUL])"
    have "tokenize i e argc av buf io = tokenize (i + strlen buf1 i + 1) e (argc + 1) av1 buf1 io"
      using True by (subst tokenize.simps) (simp add: Let_def av1_def buf1_def)
    then have "tokenize (i + strlen buf1 i + 1) e (argc + 1) av1 buf1 io = (argc', av', buf', io')"
      using 1(2) by simp
    then have "length av' = length av1 \<and> length buf' = length buf1"
      using True by (intro 1(1)) (simp_all add: av1_def buf1_def)
    then show ?thesis
      by (simp add: av1_def buf1_def split: option.splits)
  next
    case False
    have "tokenize i e argc av buf io = (argc, av, buf, if i < e then print (''Too many arguments; discarding arguments after #''
                     @ decimal (SHELL_ARG_MAX - 1) @ [NL]) io else io)"
      using False by (subst tokenize.simps) simp
    then show ?thesis
      using 1(2) by simp
  qed
qed

lemma tokenize_prefix:
  assumes "\<forall>t\<in>set toks. SP \<notin> set t \<and> NUL \<notin> set t"
    and "argc + length toks \<le> SHELL_ARG_MAX"
    and "e = length pre + length (terminated SP toks) + n"
  shows "tokenize (length pre) e argc av (pre @ terminated SP toks @ post) io
       = tokenize (length pre + length (terminated SP toks)) e (argc + length toks)
           (store_args av argc (offsets (length pre) toks))
           (pre @ terminated NUL toks @ post) io"
  using assms
proof (induction toks arbitrary: pre argc av)
  case Nil
  then show ?case by simp
next
  case (Cons t ts)
  let ?buf = "pre @ terminated SP (t # ts) @ post"
  have lt: "length pre < e" using Cons.prems by simp
  have argc: "argc < SHELL_ARG_MAX" using Cons.prems by simp
  have sp: "memchr ?buf (length pre) SP (e - length pre) = Some (length pre + length t)"
    using Cons.prems by (simp add: memchr_def index_of_append)
  have upd: "?buf[length pre + length t := NUL] = (pre @ t @ [NUL]) @ terminated SP ts @ post"
    by (simp add: list_update_append)
  have len: "strlen ((pre @ t @ [NUL]) @ terminated SP ts @ post) (length pre) = length t"
    using Cons.prems cstr_at[of t pre "terminated SP ts @ post"] by (simp add: strlen_def)
  have step: "tokenize (length pre) e argc av ?buf io
      = tokenize (length (pre @ t @ [NUL])) e (argc + 1) (av[argc := length pre])
          ((pre @ t @ [NUL]) @ terminated SP ts @ post) io"
    by (subst tokenize.simps) (simp add: lt argc sp upd len Let_def del: append_assoc terminated_simps)
  have ih: "tokenize (length (pre @ t @ [NUL])) e (argc + 1) (av[argc := length pre])
          ((pre @ t @ [NUL]) @ terminated SP ts @ post) io
      = tokenize (length (pre @ t @ [NUL]) + length (terminated SP ts)) e (argc + 1 + length ts)
           (store_args (av[argc := length pre]) (argc + 1) (offsets (length (pre @ t @ [NUL])) ts))
           ((pre @ t @ [NUL]) @ terminated NUL ts @ post) io"
    using Cons.prems by (intro Cons.IH) auto
  show ?case
    unfolding step ih by (simp add: add.assoc)
qed


lemma tokenize_stop: "\<not> i < e \<Longrightarrow> tokenize i e argc av buf io = (argc, av, buf, io)"
  by (subst tokenize.simps) simp

lemma tokenize_full:
  "i < e \<Longrightarrow> \<not> argc < SHELL_ARG_MAX \<Longrightarrow>
   tokenize i e argc av buf io
     = (argc, av, buf,
        print (''Too many arguments; discarding arguments after #''
                 @ decimal (SHELL_ARG_MAX - 1) @ [NL]) io)"
  by (subst tokenize.simps) simp

lemma tokenize_last:
  assumes "rest \<noteq> []" and "SP \<notin> set rest" and "NUL \<notin> set rest"
    and "argc < SHELL_ARG_MAX" and "e = length pre + length rest"
  shows "tokenize (length pre) e argc av (pre @ rest @ NUL # post) io
           = (argc + 1, av[argc := length pre], pre @ rest @ NUL # post, io)"
proof -
  let ?buf = "pre @ rest @ NUL # post"
  have lt: "length pre < e"
    using assms by simp
  have none: "memchr ?buf (length pre) SP (e - length pre) = None"
    using assms by (simp add: memchr_def index_of_None)
  have len: "strlen ?buf (length pre) = length rest"
    using assms by (simp add: strlen_def cstr_at)
  have "tokenize (length pre) e argc av ?buf io
          = tokenize (length pre + length rest + 1) e (argc + 1) (av[argc := length pre]) ?buf io"
    by (subst tokenize.simps) (simp add: lt assms(4) none len Let_def)
  also have "\<dots> = (argc + 1, av[argc := length pre], ?buf, io)"
    using assms(5) by (intro tokenize_stop) simp
  finally show ?thesis .
qed

lemma length_offsets [simp]: "length (offsets p toks) = length toks"
  by (induction toks arbitrary: p) auto

lemma length_store_args [simp]: "length (store_args av argc ps) = length av"
  by (induction ps arbitrary: av argc) auto

lemma take_store_args:
  "argc + length ps \<le> length av \<Longrightarrow>
   take (argc + length ps) (store_args av argc ps) = take argc av @ ps"
proof (induction ps arbitrary: av argc)
  case Nil
  then show ?case by simp
next
  case (Cons p ps)
  have "take (Suc argc + length ps) (store_args (av[argc := p]) (Suc argc) ps)
          = take (Suc argc) (av[argc := p]) @ ps"
    using Cons.prems by (intro Cons.IH) simp
  moreover have "take (Suc argc) (av[argc := p]) = take argc av @ [p]"
    using Cons.prems by (simp add: take_Suc_conv_app_nth)
  ultimately show ?case
    by simp
qed

lemma read_tokens:
  "\<forall>t\<in>set toks. NUL \<notin> set t \<Longrightarrow>
   map (cstr (pre @ terminated NUL toks @ post)) (offsets (length pre) toks) = toks"
proof (induction toks arbitrary: pre)
  case Nil
  then show ?case by simp
next
  case (Cons t ts)
  have hd: "cstr (pre @ t @ NUL # terminated NUL ts @ post) (length pre) = t"
    using Cons.prems by (simp add: cstr_at)
  have "map (cstr ((pre @ t @ [NUL]) @ terminated NUL ts @ post))
          (offsets (length (pre @ t @ [NUL])) ts) = ts"
    using Cons.prems by (intro Cons.IH) simp
  then show ?case
    using hd by simp
qed

lemma split_sp_nonempty [simp]: "split_sp l \<noteq> []"
  by (induction l) (auto split: list.splits)

lemma join_split_sp: "join_sp (split_sp l) = l"
proof (induction l)
  case Nil
  then show ?case by simp
next
  case (Cons c l)
  obtain t ts where ts: "split_sp l = t # ts"
    by (cases "split_sp l") auto
  show ?case
  proof (cases "c = SP")
    case True
    then show ?thesis using Cons ts by simp
  next
    case False
    then show ?thesis using Cons ts by (cases ts) auto
  qed
qed

lemma split_sp_no_space: "t \<in> set (split_sp l) \<Longrightarrow> SP \<notin> set t"
  by (induction l arbitrary: t) (auto split: if_splits list.splits)

lemma split_sp_subset: "t \<in> set (split_sp l) \<Longrightarrow> set t \<subseteq> set l"
  by (induction l arbitrary: t) (fastforce split: if_splits list.splits)+

lemma split_sp_terminated:
  "l = terminated SP (butlast (split_sp l)) @ last (split_sp l)"
  by (induction l) (auto split: list.splits)

lemma length_split_sp: "length (split_sp l) = Suc (count_list l SP)"
  by (induction l) (auto split: list.splits)

lemma split_sp_single: "split_sp l = [[]] \<longleftrightarrow> l = []"
  by (cases l) (auto split: list.splits)

lemma last_split_sp: "last (split_sp l) = [] \<longleftrightarrow> l = [] \<or> last l = SP"
  by (induction l) (auto simp: split_sp_single split: list.splits)

lemma terminate_line:
  "e < length buf \<Longrightarrow> buf[e := NUL] = take e buf @ NUL # drop (Suc e) buf"
  by (simp add: upd_conv_take_nth_drop)

lemma tokens_last:
  assumes "\<forall>t\<in>set toks. SP \<notin> set t \<and> NUL \<notin> set t"
    and "rest \<noteq> []" and "SP \<notin> set rest" and "NUL \<notin> set rest"
    and "length toks < SHELL_ARG_MAX"
  shows "tokenize 0 (length (terminated SP toks @ rest)) 0 av
           (terminated SP toks @ rest @ NUL # post) io
         = (length toks + 1,
            (store_args av 0 (offsets 0 toks))[length toks := length (terminated SP toks)],
            terminated NUL toks @ rest @ NUL # post, io)"
proof -
  have "tokenize (length ([]::string)) (length (terminated SP toks @ rest)) 0 av
           ([] @ terminated SP toks @ rest @ NUL # post) io
        = tokenize (length ([]::string) + length (terminated SP toks))
            (length (terminated SP toks @ rest)) (0 + length toks)
            (store_args av 0 (offsets (length ([]::string)) toks))
            ([] @ terminated NUL toks @ rest @ NUL # post) io"
    using assms by (intro tokenize_prefix[where n = "length rest"]) auto
  also have "\<dots> = tokenize (length (terminated NUL toks))
            (length (terminated SP toks @ rest)) (length toks)
            (store_args av 0 (offsets 0 toks))
            (terminated NUL toks @ rest @ NUL # post) io"
    by (simp add: length_terminated[of SP toks NUL])
  also have "\<dots> = (length toks + 1,
            (store_args av 0 (offsets 0 toks))[length toks := length (terminated NUL toks)],
            terminated NUL toks @ rest @ NUL # post, io)"
    using assms by (intro tokenize_last) (simp_all add: length_terminated[of SP toks NUL])
  finally show ?thesis
    by (simp add: length_terminated[of SP toks NUL])
qed

lemma tokens_exact:
  assumes "\<forall>t\<in>set toks. SP \<notin> set t \<and> NUL \<notin> set t"
    and "length toks \<le> SHELL_ARG_MAX"
  shows "tokenize 0 (length (terminated SP toks)) 0 av (terminated SP toks @ post) io
         = (length toks, store_args av 0 (offsets 0 toks), terminated NUL toks @ post, io)"
proof -
  have "tokenize (length ([]::string)) (length (terminated SP toks)) 0 av
           ([] @ terminated SP toks @ post) io
        = tokenize (length ([]::string) + length (terminated SP toks))
            (length (terminated SP toks)) (0 + length toks)
            (store_args av 0 (offsets (length ([]::string)) toks))
            ([] @ terminated NUL toks @ post) io"
    using assms by (intro tokenize_prefix[where n = 0]) auto
  then show ?thesis
    by (simp add: tokenize_stop)
qed

lemma tokens_truncated:
  assumes "\<forall>t\<in>set toks. SP \<notin> set t \<and> NUL \<notin> set t"
    and "length toks = SHELL_ARG_MAX" and "rest \<noteq> []"
  shows "tokenize 0 (length (terminated SP toks @ rest)) 0 av
           (terminated SP toks @ rest @ post) io
         = (SHELL_ARG_MAX, store_args av 0 (offsets 0 toks),
            terminated NUL toks @ rest @ post,
            print (''Too many arguments; discarding arguments after #''
                     @ decimal (SHELL_ARG_MAX - 1) @ [NL]) io)"
proof -
  have "tokenize (length ([]::string)) (length (terminated SP toks @ rest)) 0 av
           ([] @ terminated SP toks @ rest @ post) io
        = tokenize (length ([]::string) + length (terminated SP toks))
            (length (terminated SP toks @ rest)) (0 + length toks)
            (store_args av 0 (offsets (length ([]::string)) toks))
            ([] @ terminated NUL toks @ rest @ post) io"
    using assms by (intro tokenize_prefix[where n = "length rest"]) auto
  then show ?thesis
    using assms by (simp add: tokenize_full)
qed

lemma stored_tokens:
  assumes "\<forall>t\<in>set toks. NUL \<notin> set t" and "length toks \<le> length av"
  shows "map (cstr (terminated NUL toks @ post))
           (take (length toks) (store_args av 0 (offsets 0 toks))) = toks"
proof -
  have "take (0 + length (offsets 0 toks)) (store_args av 0 (offsets 0 toks))
          = take 0 av @ offsets 0 toks"
    using assms by (intro take_store_args) simp
  then have "take (length toks) (store_args av 0 (offsets 0 toks)) = offsets 0 toks"
    by simp
  moreover have "map (cstr ([] @ terminated NUL toks @ post)) (offsets (length ([]::string)) toks) = toks"
    using assms(1) by (rule read_tokens)
  ultimately show ?thesis
    by simp
qed

lemma stored_tokens_last:
  assumes "\<forall>t\<in>set toks. NUL \<notin> set t" and "length toks < length av" and "NUL \<notin> set rest"
  shows "map (cstr (terminated NUL toks @ rest @ NUL # post))
           (take (length toks + 1)
              ((store_args av 0 (offsets 0 toks))[length toks := length (terminated SP toks)]))
         = toks @ [rest]"
proof -
  let ?av = "store_args av 0 (offsets 0 toks)"
  let ?buf = "terminated NUL toks @ rest @ NUL # post"
  have "take (length toks + 1) (?av[length toks := length (terminated SP toks)])
          = take (length toks) ?av @ [length (terminated SP toks)]"
    using assms(2) by (simp add: take_Suc_conv_app_nth)
  moreover have "map (cstr ?buf) (take (length toks) ?av) = toks"
    using assms by (intro stored_tokens) simp_all
  moreover have "cstr ?buf (length (terminated NUL toks)) = rest"
    using assms(3) by (rule cstr_at)
  ultimately show ?thesis
    by (simp add: length_terminated[of SP toks NUL])
qed

subsection \<open>Tokenizing and re-joining a line\<close>

lemma cstr_line: "NUL \<notin> set line \<Longrightarrow> cstr (line @ NUL # post) 0 = line"
  using cstr_at[of line "[]" post] by simp

lemma split_arguments_line:
  assumes "e < length (input s)" and "NUL \<notin> set (take e (input s))"
  shows "split_arguments e s
         = (case tokenize 0 e 0 (argv s) (take e (input s) @ NUL # drop (Suc e) (input s))
                  (print (take e (input s) @ [NL]) (serial s)) of
              (argc, av3, buf3, io3) \<Rightarrow> (argc, s\<lparr>input := buf3, argv := av3, serial := io3\<rparr>))"
  using assms by (simp add: split_arguments_def terminate_line cstr_line Let_def)

lemma loaded_input:
  "length bytes \<le> SHELL_LINE_MAX \<Longrightarrow> length (input (loaded bytes)) = SHELL_LINE_MAX"
  by (simp add: loaded_def)

lemma loaded_argv: "length (argv (loaded bytes)) = SHELL_ARG_MAX"
  by (simp add: loaded_def main_enter_def demo_shell_def Shell_counted_def Shell.extend_def)

text \<open>
  Claim C4, as amended. Take a line shorter than the buffer that holds no NUL byte,
  does not end with a space and has at most \<open>SHELL_ARG_MAX\<close> pieces when cut at every
  single space. Splitting its arguments yields exactly these pieces as argument strings
  (none for the empty line), so joining the arguments with single spaces gives the line
  back; \<open>argc\<close> is their number, and the transport receives the echo of the line and no
  diagnostic. Two spaces in a row therefore yield an empty argument.
\<close>

theorem tokenize_rejoin:
  assumes "length (input s) = SHELL_LINE_MAX" and "length (argv s) = SHELL_ARG_MAX"
    and "length line < SHELL_LINE_MAX" and "take (length line) (input s) = line"
    and "NUL \<notin> set line" and "line = [] \<or> last line \<noteq> SP"
    and "length (split_sp line) \<le> SHELL_ARG_MAX"
  shows "case split_arguments (length line) s of
           (argc, s') \<Rightarrow>
             arguments argc s' = (if line = [] then [] else split_sp line)
           \<and> join_sp (arguments argc s') = line
           \<and> argc = length (arguments argc s')
           \<and> outgoing (serial s') = outgoing (serial s) @ line @ [NL]"
proof (cases "line = []")
  case True
  then show ?thesis
    using assms(1,3)
    by (simp add: split_arguments_line tokenize_stop arguments_def print_def)
next
  case False
  define toks where "toks = butlast (split_sp line)"
  define rest where "rest = last (split_sp line)"
  define post where "post = drop (Suc (length line)) (input s)"
  have split: "split_sp line = toks @ [rest]"
    by (simp add: toks_def rest_def)
  have line: "line = terminated SP toks @ rest"
    unfolding toks_def rest_def by (rule split_sp_terminated)
  have rest: "rest \<noteq> []"
    using False assms(6) last_split_sp[of line] by (simp add: rest_def)
  have mem: "\<And>t. t \<in> set (split_sp line) \<Longrightarrow> SP \<notin> set t \<and> NUL \<notin> set t"
    using split_sp_no_space split_sp_subset assms(5) by blast
  have toks: "\<forall>t\<in>set toks. SP \<notin> set t \<and> NUL \<notin> set t"
    using mem split by simp
  have rest': "SP \<notin> set rest" "NUL \<notin> set rest"
    using mem[of rest] split by simp_all
  have n: "length toks < SHELL_ARG_MAX"
    using assms(7) split by simp
  have tok: "tokenize 0 (length line) 0 (argv s) (line @ NUL # post)
               (print (line @ [NL]) (serial s))
             = (length toks + 1,
                (store_args (argv s) 0 (offsets 0 toks))[length toks := length (terminated SP toks)],
                terminated NUL toks @ rest @ NUL # post, print (line @ [NL]) (serial s))"
    using tokens_last[OF toks rest rest' n, of "argv s" post] line by simp
  have sa: "split_arguments (length line) s
         = (length toks + 1,
            s\<lparr>input := terminated NUL toks @ rest @ NUL # post,
              argv := (store_args (argv s) 0 (offsets 0 toks))[length toks := length (terminated SP toks)],
              serial := print (line @ [NL]) (serial s)\<rparr>)"
    using assms(1,3,4,5) by (simp add: split_arguments_line tok[unfolded post_def] post_def)
  have args: "map (cstr (terminated NUL toks @ rest @ NUL # post))
           (take (length toks + 1)
              ((store_args (argv s) 0 (offsets 0 toks))[length toks := length (terminated SP toks)]))
         = toks @ [rest]"
    using toks n assms(2) rest' by (intro stored_tokens_last) simp_all
  show ?thesis
    using False args split n assms(2)
    by (simp add: sa arguments_def join_split_sp[of line, unfolded split] print_def)
qed

theorem tokenize_rejoin_witness:
  "case split_arguments (length ''echo a  b'') (loaded (''echo a  b'' @ [NL])) of
     (argc, s') \<Rightarrow> arguments argc s' = [''echo'', ''a'', '''', ''b''] \<and> argc = 4
        \<and> join_sp (arguments argc s') = ''echo a  b''"
proof -
  let ?s = "loaded (''echo a  b'' @ [NL])"
  have h1: "length (input ?s) = SHELL_LINE_MAX"
    by (simp add: loaded_input SHELL_LINE_MAX_def)
  have h2: "length (argv ?s) = SHELL_ARG_MAX"
    by (rule loaded_argv)
  have h3: "length ''echo a  b'' < SHELL_LINE_MAX"
    by (simp add: SHELL_LINE_MAX_def)
  have h4: "take (length ''echo a  b'') (input ?s) = ''echo a  b''"
    by (simp add: loaded_def)
  have h5: "NUL \<notin> set ''echo a  b''"
    by simp
  have h6: "''echo a  b'' = [] \<or> last ''echo a  b'' \<noteq> SP"
    by simp
  have h7: "length (split_sp ''echo a  b'') \<le> SHELL_ARG_MAX"
    by (simp add: SHELL_ARG_MAX_def)
  from tokenize_rejoin [OF h1 h2 h3 h4 h5 h6 h7] show ?thesis
    by (auto split: prod.splits)
qed

text \<open>
  Claim C4 as stated fails on a line that ends with a space, and on a line that holds a
  NUL byte: the line \<open>a\<close>, space has two pieces but one argument, and the three bytes
  \<open>a\<close>, NUL, \<open>b\<close> are one piece but two arguments. Joined with spaces the arguments give
  \<open>a\<close> and \<open>a b\<close>, not the lines.
\<close>

theorem rejoin_differs:
  "length [CHR ''a'', SP] < SHELL_LINE_MAX
   \<and> length (split_sp [CHR ''a'', SP]) \<le> SHELL_ARG_MAX
   \<and> arguments (fst (split_arguments 2 (loaded [CHR ''a'', SP, NL])))
        (snd (split_arguments 2 (loaded [CHR ''a'', SP, NL]))) = [''a'']
   \<and> join_sp [''a''] \<noteq> [CHR ''a'', SP]
   \<and> length [CHR ''a'', NUL, CHR ''b''] < SHELL_LINE_MAX
   \<and> length (split_sp [CHR ''a'', NUL, CHR ''b'']) \<le> SHELL_ARG_MAX
   \<and> arguments (fst (split_arguments 3 (loaded [CHR ''a'', NUL, CHR ''b'', NL])))
        (snd (split_arguments 3 (loaded [CHR ''a'', NUL, CHR ''b'', NL]))) = [''a'', ''b'']
   \<and> join_sp [''a'', ''b''] \<noteq> [CHR ''a'', NUL, CHR ''b'']"
  by code_simp

subsection \<open>More arguments than \<open>argv\<close> can hold\<close>

lemma take_write_bytes:
  "p \<le> length mem \<Longrightarrow> k \<le> length bytes \<Longrightarrow>
   take (p + k) (write_bytes mem p bytes) = take p mem @ take k bytes"
  by (simp add: write_bytes_def)

lemma iteration_line:
  assumes "bufhead s \<le> SHELL_LINE_MAX" and "length (input s) = SHELL_LINE_MAX"
    and "readBytes (SHELL_LINE_MAX - bufhead s) (serial s) = (bytes, io1)"
    and "index_of NL bytes = Some k"
  shows "iteration s
         = (case split_arguments (bufhead s + k)
                  (s\<lparr>input := write_bytes (input s) (bufhead s) bytes, serial := io1\<rparr>) of
              (argc, s3) \<Rightarrow>
                if argc = 0 then Inr s3
                else (case dispatch argc s3 of
                        Inl f \<Rightarrow> Inl f
                      | Inr io4 \<Rightarrow>
                          Inr (prepare_next (bufhead s + k) (length bytes)
                                 (s3\<lparr>serial := io4\<rparr>))))"
  using assms by (simp add: iteration_def memchr_write_bytes Let_def)

lemma decimal_limit: "decimal (SHELL_ARG_MAX - Suc 0) = ''31''"
  by code_simp

text \<open>
  Claim C6, as amended. A pass completes a line (the bytes accumulated before the read
  and the bytes just read up to the newline) that holds no NUL byte and consists of 32
  tokens, each followed by a single space, and a remainder of at least one more byte.
  Then \<open>argc\<close> is 32 and the arguments are exactly these 32 tokens; the buffer holds the
  tokens with their spaces turned into terminators and the remainder byte for byte as it
  was, followed by the terminator in place of the newline; the transport receives the
  echo of the line and then exactly one diagnostic, which names index 31; and the pass
  goes on to dispatch with \<open>argc = 32\<close> on these arguments.
\<close>

theorem too_many_arguments:
  assumes "length (input s) = SHELL_LINE_MAX" and "length (argv s) = SHELL_ARG_MAX"
    and "bufhead s \<le> SHELL_LINE_MAX"
    and "readBytes (SHELL_LINE_MAX - bufhead s) (serial s) = (bytes, io1)"
    and "index_of NL bytes = Some k"
    and "take (bufhead s) (input s) @ take k bytes = terminated SP toks @ rest"
    and "length toks = SHELL_ARG_MAX"
    and "\<forall>t\<in>set toks. SP \<notin> set t \<and> NUL \<notin> set t"
    and "rest \<noteq> []" and "NUL \<notin> set rest"
  shows "\<exists>s3. split_arguments (bufhead s + k)
                (s\<lparr>input := write_bytes (input s) (bufhead s) bytes, serial := io1\<rparr>)
              = (SHELL_ARG_MAX, s3)
           \<and> arguments SHELL_ARG_MAX s3 = toks
           \<and> input s3 = terminated NUL toks @ rest @ NUL
                 # drop (Suc (bufhead s + k)) (write_bytes (input s) (bufhead s) bytes)
           \<and> outgoing (serial s3)
               = outgoing (serial s) @ terminated SP toks @ rest @ [NL]
                   @ ''Too many arguments; discarding arguments after #31'' @ [NL]
           \<and> iteration s
               = (case dispatch SHELL_ARG_MAX s3 of
                    Inl f \<Rightarrow> Inl f
                  | Inr io4 \<Rightarrow>
                      Inr (prepare_next (bufhead s + k) (length bytes) (s3\<lparr>serial := io4\<rparr>)))"
proof -
  define buf1 where "buf1 = write_bytes (input s) (bufhead s) bytes"
  define e where "e = bufhead s + k"
  define s1 where "s1 = s\<lparr>input := buf1, serial := io1\<rparr>"
  define post where "post = drop (Suc e) buf1"
  define line where "line = terminated SP toks @ rest"
  define diag where "diag = ''Too many arguments; discarding arguments after #'' @ decimal (SHELL_ARG_MAX - 1) @ [NL]"
  have k: "k < length bytes"
    using assms(5) by (simp add: index_of_Some)
  have cnt: "length bytes \<le> SHELL_LINE_MAX - bufhead s"
    using readBytes_length[of "SHELL_LINE_MAX - bufhead s" "serial s"] assms(4) by simp
  have len1: "length buf1 = SHELL_LINE_MAX"
    using cnt assms(1,3) by (simp add: buf1_def length_write_bytes)
  have e: "e < length buf1"
    using k cnt assms(3) by (simp add: e_def len1)
  have tk: "take e buf1 = line"
    using k assms(1,3,6) by (simp add: e_def buf1_def line_def take_write_bytes)
  have nul: "NUL \<notin> set line"
    using assms(8,10) by (auto simp: line_def terminated_def)
  have le: "length line = e"
    using tk e by (metis length_take min.absorb2 less_imp_le)
  have tok: "tokenize 0 e 0 (argv s) (line @ NUL # post) (print (line @ [NL]) io1)
      = (SHELL_ARG_MAX, store_args (argv s) 0 (offsets 0 toks),
         terminated NUL toks @ rest @ NUL # post, print diag (print (line @ [NL]) io1))"
    using tokens_truncated[OF assms(8,7,9), of "argv s" "NUL # post" "print (line @ [NL]) io1"] le
    by (simp add: line_def diag_def)
  define s3 where "s3 = s1\<lparr>input := terminated NUL toks @ rest @ NUL # post,
                            argv := store_args (argv s) 0 (offsets 0 toks),
                            serial := print diag (print (line @ [NL]) io1)\<rparr>"
  have sa: "split_arguments e s1 = (SHELL_ARG_MAX, s3)"
    using e tk nul tok by (simp add: split_arguments_line s1_def s3_def post_def)
  have args: "arguments SHELL_ARG_MAX s3 = toks"
    using stored_tokens[of toks "argv s" "rest @ NUL # post"] assms(2,7,8)
    by (simp add: arguments_def s3_def s1_def)
  have out: "outgoing (serial s3) = outgoing (serial s) @ line @ [NL]
               @ ''Too many arguments; discarding arguments after #31'' @ [NL]"
    using readBytes_outgoing[of "SHELL_LINE_MAX - bufhead s" "serial s"] assms(4)
    by (simp add: s3_def s1_def print_def diag_def decimal_limit)
  have it: "iteration s = (case dispatch SHELL_ARG_MAX s3 of
                    Inl f \<Rightarrow> Inl f
                  | Inr io4 \<Rightarrow>
                      Inr (prepare_next (bufhead s + k) (length bytes) (s3\<lparr>serial := io4\<rparr>)))"
    using iteration_line[OF assms(3,1,4,5)] sa
    by (simp add: s1_def buf1_def e_def SHELL_ARG_MAX_def)
  show ?thesis
    using sa args out it
    by (intro exI[of _ s3]) (simp add: s1_def buf1_def e_def line_def s3_def post_def)
qed

theorem too_many_arguments_witness:
  "\<exists>s3. split_arguments 65 ((main_enter demo_shell (demo_io [crowded @ [NL]]))
            \<lparr>input := write_bytes (replicate SHELL_LINE_MAX NUL) 0 (crowded @ [NL]),
              serial := \<lparr>incoming = [], outgoing = ''shell> '', timeout = 20\<rparr>\<rparr>)
          = (SHELL_ARG_MAX, s3)
     \<and> arguments SHELL_ARG_MAX s3 = replicate 32 ''a''
     \<and> outgoing (serial s3)
           = ''shell> '' @ terminated SP (replicate 32 ''a'') @ ''b'' @ [NL]
               @ ''Too many arguments; discarding arguments after #31'' @ [NL]"
proof -
  let ?s = "main_enter demo_shell (demo_io [crowded @ [NL]])"
  let ?io1 = "\<lparr>incoming = [], outgoing = ''shell> '', timeout = 20\<rparr>"
  have h1: "length (input ?s) = SHELL_LINE_MAX"
    by (simp add: main_enter_def demo_shell_def Shell_counted_def Shell.extend_def)
  have h2: "length (argv ?s) = SHELL_ARG_MAX"
    by (simp add: main_enter_def demo_shell_def Shell_counted_def Shell.extend_def)
  have h3: "bufhead ?s \<le> SHELL_LINE_MAX"
    by (simp add: main_enter_def Shell.extend_def)
  have len: "length (crowded @ [NL]) = 66"
    by code_simp
  have h4: "readBytes (SHELL_LINE_MAX - bufhead ?s) (serial ?s) = (crowded @ [NL], ?io1)"
    using len
    by (simp add: main_enter_def demo_io_def Shell.extend_def SHELL_LINE_MAX_def readBytes_def
          prompt_def print_def setTimeout_def)
  have h5: "index_of NL (crowded @ [NL]) = Some 65"
    by code_simp
  have h6: "take (bufhead ?s) (input ?s) @ take 65 (crowded @ [NL])
              = terminated SP (replicate 32 ''a'') @ ''b''"
    using len by (simp add: main_enter_def Shell.extend_def crowded_def)
  have h7: "length (replicate 32 ''a'') = SHELL_ARG_MAX"
    by (simp add: SHELL_ARG_MAX_def)
  have h8: "\<forall>t\<in>set (replicate 32 ''a''). SP \<notin> set t \<and> NUL \<notin> set t"
    by simp
  have h9: "''b'' \<noteq> []" "NUL \<notin> set ''b''"
    by simp_all
  have st: "bufhead ?s = 0" "input ?s = replicate SHELL_LINE_MAX NUL"
       "outgoing (serial ?s) = ''shell> ''"
    by (simp_all add: main_enter_def demo_shell_def demo_io_def Shell_counted_def
          Shell.extend_def prompt_def print_def setTimeout_def)
  from too_many_arguments [OF h1 h2 h3 h4 h5 h6 h7 h8 h9] show ?thesis
    by (auto simp: st)
qed

lemma tokenize_step:
  assumes "length pre < e" and "argc < SHELL_ARG_MAX"
    and "index_of SP (take (e - length pre) xs) = Some k"
    and "length (takeWhile (\<lambda>c. c \<noteq> NUL) (xs[k := NUL])) = n"
  shows "tokenize (length pre) e argc av (pre @ xs) io
         = tokenize (length pre + n + 1) e (argc + 1) (av[argc := length pre])
             (pre @ xs[k := NUL]) io"
  using assms
  by (subst tokenize.simps) (simp add: memchr_def strlen_def cstr_def Let_def list_update_append)

lemma nul_line_tokens:
  assumes "length av = SHELL_ARG_MAX"
  shows "\<exists>av' buf' io'.
           tokenize 0 67 0 av (nul_line @ NUL # post) io = (32, av', buf', io')
         \<and> map (cstr buf') (take 32 av') = replicate 30 ''t'' @ [''x'', ''y'']"
proof -
  define toks where "toks = replicate 30 ''t''"
  define P where "P = terminated NUL toks"
  define av30 where "av30 = store_args av 0 (offsets 0 toks)"
  have toks: "\<forall>t\<in>set toks. SP \<notin> set t \<and> NUL \<notin> set t"
    by (simp add: toks_def)
  have lenP: "length P = 60" "length (terminated SP toks) = 60"
    unfolding P_def toks_def by code_simp+
  have "tokenize (length ([]::string)) 67 0 av
           ([] @ terminated SP toks @ [CHR ''x'', NUL, CHR ''y'', SP, CHR ''z'', SP, CHR ''w'', NUL] @ post) io
        = tokenize (length ([]::string) + length (terminated SP toks)) 67 (0 + length toks)
            (store_args av 0 (offsets (length ([]::string)) toks))
            ([] @ terminated NUL toks @ [CHR ''x'', NUL, CHR ''y'', SP, CHR ''z'', SP, CHR ''w'', NUL] @ post) io"
    using toks lenP
    by (intro tokenize_prefix[where n = 7]) (simp_all add: toks_def SHELL_ARG_MAX_def)
  then have a: "tokenize 0 67 0 av (nul_line @ NUL # post) io
        = tokenize (length P) 67 30 av30
            (P @ [CHR ''x'', NUL, CHR ''y'', SP, CHR ''z'', SP, CHR ''w'', NUL] @ post) io"
    using lenP by (simp add: nul_line_def P_def av30_def toks_def)
  have b: "tokenize 60 67 30 av30
            (P @ [CHR ''x'', NUL, CHR ''y'', SP, CHR ''z'', SP, CHR ''w'', NUL] @ post) io
        = tokenize 62 67 31 (av30[30 := 60])
            (P @ [CHR ''x'', NUL, CHR ''y'', NUL, CHR ''z'', SP, CHR ''w'', NUL] @ post) io"
    using tokenize_step[of P 67 30
        "[CHR ''x'', NUL, CHR ''y'', SP, CHR ''z'', SP, CHR ''w'', NUL] @ post" 3 1 av30 io]
    by (simp add: lenP SHELL_ARG_MAX_def numeral_3_eq_3)
  have c: "tokenize 62 67 31 (av30[30 := 60])
            (P @ [CHR ''x'', NUL, CHR ''y'', NUL, CHR ''z'', SP, CHR ''w'', NUL] @ post) io
        = tokenize 64 67 32 (av30[30 := 60, 31 := 62])
            (P @ [CHR ''x'', NUL, CHR ''y'', NUL, CHR ''z'', NUL, CHR ''w'', NUL] @ post) io"
    using tokenize_step[of "P @ [CHR ''x'', NUL]" 67 31
        "[CHR ''y'', NUL, CHR ''z'', SP, CHR ''w'', NUL] @ post" 3 1 "av30[30 := 60]" io]
    by (simp add: lenP SHELL_ARG_MAX_def numeral_3_eq_3)
  define buf' where "buf' = P @ [CHR ''x'', NUL, CHR ''y'', NUL, CHR ''z'', NUL, CHR ''w'', NUL] @ post"
  define av' where "av' = av30[30 := 60, 31 := 62]"
  have d: "tokenize 0 67 0 av (nul_line @ NUL # post) io
           = (32, av', buf',
              print (''Too many arguments; discarding arguments after #''
                 @ decimal (SHELL_ARG_MAX - 1) @ [NL]) io)"
    using a b c tokenize_full[of 64 67 32 av' buf' io]
    by (simp add: lenP buf'_def av'_def SHELL_ARG_MAX_def)
  have len30: "length av30 = 32"
    using assms by (simp add: av30_def SHELL_ARG_MAX_def)
  have tk: "take 32 av' = take 30 av30 @ [60, 62]"
    using len30 by (simp add: av'_def list_eq_iff_nth_eq nth_append nth_list_update) 
  have t30: "map (cstr buf') (take 30 av30) = toks"
    using stored_tokens[of toks av "[CHR ''x'', NUL, CHR ''y'', NUL, CHR ''z'', NUL, CHR ''w'', NUL] @ post"]
      toks assms
    by (simp add: buf'_def P_def av30_def toks_def SHELL_ARG_MAX_def)
  have x: "cstr buf' 60 = ''x''"
    using cstr_at[of "''x''" P "[CHR ''y'', NUL, CHR ''z'', NUL, CHR ''w'', NUL] @ post"] lenP
    by (simp add: buf'_def)
  have y: "cstr buf' 62 = ''y''"
    using cstr_at[of "''y''" "P @ [CHR ''x'', NUL]" "[CHR ''z'', NUL, CHR ''w'', NUL] @ post"] lenP
    by (simp add: buf'_def)
  show ?thesis
    using d tk t30 x y by (simp add: toks_def)
qed


text \<open>
  Claim C6 as stated fails on a line that holds a NUL byte. The line below has 33
  tokens when cut at its spaces, and its first 32 are thirty times \<open>t\<close>, then the
  bytes \<open>x\<close>, NUL, \<open>y\<close>, then \<open>z\<close>. The tokenizer steps over each token with
  \<^verbatim>\<open>strlen\<close>, so the NUL byte ends a token of its own: the 32 accepted arguments are
  thirty times \<open>t\<close>, then \<open>x\<close> and \<open>y\<close>, and \<open>z\<close> is not among them.
\<close>

theorem nul_byte_shifts_tokens:
  "index_of NL (nul_line @ [NL]) = Some 67
   \<and> length (split_sp nul_line) = 33
   \<and> take 32 (split_sp nul_line) = replicate 30 ''t'' @ [[CHR ''x'', NUL, CHR ''y''], ''z'']
   \<and> fst (split_arguments 67 (loaded (nul_line @ [NL]))) = 32
   \<and> arguments 32 (snd (split_arguments 67 (loaded (nul_line @ [NL]))))
        = replicate 30 ''t'' @ [''x'', ''y'']"
proof -
  let ?s = "loaded (nul_line @ [NL])"
  have len: "length nul_line = 67"
    by code_simp
  have nl: "index_of NL (nul_line @ [NL]) = Some 67"
    by code_simp
  have sp: "length (split_sp nul_line) = 33"
    "take 32 (split_sp nul_line) = replicate 30 ''t'' @ [[CHR ''x'', NUL, CHR ''y''], ''z'']"
    by code_simp+
  have inp: "(input ?s)[67 := NUL] = nul_line @ NUL # replicate 1980 NUL"
    using len by (simp add: loaded_def SHELL_LINE_MAX_def list_update_append)
  obtain av' buf' io' where
    tok: "tokenize 0 67 0 (argv ?s) (nul_line @ NUL # replicate 1980 NUL)
            (print (cstr (nul_line @ NUL # replicate 1980 NUL) 0 @ [NL]) (serial ?s))
          = (32, av', buf', io')"
    and args: "map (cstr buf') (take 32 av') = replicate 30 ''t'' @ [''x'', ''y'']"
    using nul_line_tokens[OF loaded_argv] by blast
  have "split_arguments 67 ?s = (32, ?s\<lparr>input := buf', argv := av', serial := io'\<rparr>)"
    by (simp add: split_arguments_def inp tok Let_def)
  then show ?thesis
    using nl sp args by (simp add: arguments_def)
qed

subsection \<open>What a pass leaves untouched\<close>

lemma memchr_bound:
  "memchr mem p c n = Some e \<Longrightarrow> p \<le> e \<and> e < p + n \<and> e < length mem"
  by (auto simp: memchr_def dest!: index_of_Some)

lemma tokenize_beyond:
  "tokenize i e argc av buf io = (argc', av', buf', io') \<Longrightarrow> drop e buf' = drop e buf"
proof (induction i e argc av buf io rule: tokenize.induct)
  case (1 i e argc av buf io)
  show ?case
  proof (cases "i < e \<and> argc < SHELL_ARG_MAX")
    case True
    define av1 where "av1 = av[argc := i]"
    define buf1 where
      "buf1 = (case memchr buf i SP (e - i) of None \<Rightarrow> buf | Some sp \<Rightarrow> buf[sp := NUL])"
    have "tokenize i e argc av buf io
            = tokenize (i + strlen buf1 i + 1) e (argc + 1) av1 buf1 io"
      using True by (subst tokenize.simps) (simp add: Let_def av1_def buf1_def)
    then have "tokenize (i + strlen buf1 i + 1) e (argc + 1) av1 buf1 io
                 = (argc', av', buf', io')"
      using 1(2) by simp
    then have "drop e buf' = drop e buf1"
      using True by (intro 1(1)) (simp_all add: av1_def buf1_def)
    moreover have "drop e buf1 = drop e buf"
      using True by (auto simp: buf1_def split: option.splits dest!: memchr_bound)
    ultimately show ?thesis
      by simp
  next
    case False
    have "tokenize i e argc av buf io
            = (argc, av, buf,
               if i < e
               then print (''Too many arguments; discarding arguments after #''
                             @ decimal (SHELL_ARG_MAX - 1) @ [NL]) io
               else io)"
      using False by (subst tokenize.simps) simp
    then show ?thesis
      using 1(2) by simp
  qed
qed

lemma tokenize_argc:
  "tokenize i e argc av buf io = (argc', av', buf', io') \<Longrightarrow> argc \<le> argc'"
proof (induction i e argc av buf io rule: tokenize.induct)
  case (1 i e argc av buf io)
  show ?case
  proof (cases "i < e \<and> argc < SHELL_ARG_MAX")
    case True
    define av1 where "av1 = av[argc := i]"
    define buf1 where
      "buf1 = (case memchr buf i SP (e - i) of None \<Rightarrow> buf | Some sp \<Rightarrow> buf[sp := NUL])"
    have "tokenize i e argc av buf io
            = tokenize (i + strlen buf1 i + 1) e (argc + 1) av1 buf1 io"
      using True by (subst tokenize.simps) (simp add: Let_def av1_def buf1_def)
    then have "tokenize (i + strlen buf1 i + 1) e (argc + 1) av1 buf1 io
                 = (argc', av', buf', io')"
      using 1(2) by simp
    then have "argc + 1 \<le> argc'"
      using True by (intro 1(1)) (simp_all add: av1_def buf1_def)
    then show ?thesis
      by simp
  next
    case False
    have "tokenize i e argc av buf io
            = (argc, av, buf,
               if i < e
               then print (''Too many arguments; discarding arguments after #''
                             @ decimal (SHELL_ARG_MAX - 1) @ [NL]) io
               else io)"
      using False by (subst tokenize.simps) simp
    then show ?thesis
      using 1(2) by simp
  qed
qed

lemma tokenize_nonempty:
  assumes "0 < e" and "tokenize 0 e 0 av buf io = (argc', av', buf', io')"
  shows "0 < argc'"
proof -
  define av1 where "av1 = av[0 := 0]"
  define buf1 where
    "buf1 = (case memchr buf 0 SP (e - 0) of None \<Rightarrow> buf | Some sp \<Rightarrow> buf[sp := NUL])"
  have "tokenize 0 e 0 av buf io = tokenize (0 + strlen buf1 0 + 1) e (0 + 1) av1 buf1 io"
    using assms(1)
    by (subst tokenize.simps) (simp add: Let_def av1_def buf1_def SHELL_ARG_MAX_def)
  then have "tokenize (0 + strlen buf1 0 + 1) e (0 + 1) av1 buf1 io = (argc', av', buf', io')"
    using assms(2) by simp
  then have "0 + 1 \<le> argc'"
    by (rule tokenize_argc)
  then show ?thesis
    by simp
qed

lemma split_arguments_frame:
  assumes "split_arguments e s = (argc, s')"
  shows "bufhead s' = bufhead s" and "length (input s') = length (input s)"
    and "length (argv s') = length (argv s)" and "commands s' = commands s"
    and "cmd_count s' = cmd_count s"
    and "drop (Suc e) (input s') = drop (Suc e) (input s)"
    and "0 < e \<Longrightarrow> 0 < argc"
proof -
  define buf2 where "buf2 = (input s)[e := NUL]"
  define io2 where "io2 = print (cstr buf2 0 @ [NL]) (serial s)"
  obtain a av3 buf3 io3 where tok: "tokenize 0 e 0 (argv s) buf2 io2 = (a, av3, buf3, io3)"
    by (cases "tokenize 0 e 0 (argv s) buf2 io2") auto
  have res: "argc = a" "s' = s\<lparr>input := buf3, argv := av3, serial := io3\<rparr>"
    using assms tok by (simp_all add: split_arguments_def Let_def buf2_def io2_def)
  have len: "length av3 = length (argv s)" "length buf3 = length buf2"
    using tokenize_length[OF tok] by simp_all
  have "drop e buf3 = drop e buf2"
    using tok by (rule tokenize_beyond)
  then have "drop (Suc e) buf3 = drop (Suc e) buf2"
    by (metis drop_drop plus_1_eq_Suc)
  then have beyond: "drop (Suc e) buf3 = drop (Suc e) (input s)"
    by (simp add: buf2_def)
  show "bufhead s' = bufhead s" "length (input s') = length (input s)"
    "length (argv s') = length (argv s)" "commands s' = commands s"
    "cmd_count s' = cmd_count s" "drop (Suc e) (input s') = drop (Suc e) (input s)"
    using res len beyond by (simp_all add: buf2_def)
  show "0 < e \<Longrightarrow> 0 < argc"
    using tokenize_nonempty[OF _ tok] res by simp
qed

subsection \<open>The write cursor\<close>

lemma bsearch_loop_fault:
  "bsearch_loop key base l u probes = Inl f \<Longrightarrow> f \<noteq> BufferOverrun"
proof (induction key base l u probes rule: bsearch_loop.induct)
  case (1 key base l u probes)
  define idx where "idx = (l + u) div 2"
  note eq = 1(3)[unfolded bsearch_loop.simps[of key base l u probes]]
  show ?case
  proof (cases "l < u \<and> \<not> length base \<le> idx")
    case False
    then show ?thesis
      using eq by (auto simp: Let_def idx_def split: if_splits)
  next
    case True
    show ?thesis
    proof (cases "cmp key (base ! idx)")
      case (Inl g)
      then show ?thesis
        using eq True by (auto simp: Let_def idx_def cmp_def split: option.splits)
    next
      case (Inr c)
      consider "c < 0" | "0 < c" | "c = 0"
        by linarith
      then show ?thesis
      proof cases
        case 1
        then have "bsearch_loop key base l idx (probes @ [idx]) = Inl f"
          using eq True Inr by (simp add: Let_def idx_def)
        then show ?thesis
          using True Inr 1 by (intro "1.IH"(1)[of idx c]) (simp_all add: idx_def)
      next
        case 2
        then have "bsearch_loop key base (idx + 1) u (probes @ [idx]) = Inl f"
          using eq True Inr by (simp add: Let_def idx_def)
        then show ?thesis
          using True Inr 2 by (intro "1.IH"(2)[of idx c]) (simp_all add: idx_def)
      next
        case 3
        then show ?thesis
          using eq True Inr by (simp add: Let_def idx_def)
      qed
    qed
  qed
qed

lemma dispatch_fault: "dispatch argc s = Inl f \<Longrightarrow> f \<noteq> BufferOverrun"
  by (auto simp: dispatch_def bsearch_def split: sum.splits prod.splits option.splits
           dest: bsearch_loop_fault)

lemma length_memmove:
  "src + n \<le> length mem \<Longrightarrow> length (memmove mem 0 src n) = length mem"
  by (simp add: memmove_def)

lemma take_memmove:
  "src + n \<le> length mem \<Longrightarrow> take n (memmove mem 0 src n) = take n (drop src mem)"
  by (simp add: memmove_def)

lemma iteration_no_line:
  assumes "bufhead s \<le> SHELL_LINE_MAX" and "length (input s) = SHELL_LINE_MAX"
    and "readBytes (SHELL_LINE_MAX - bufhead s) (serial s) = (bytes, io1)"
    and "index_of NL bytes = None"
  shows "iteration s
         = (if SHELL_LINE_MAX \<le> bufhead s + length bytes
            then Inr (s\<lparr>input := write_bytes (input s) (bufhead s) bytes, bufhead := 0,
                        serial := prompt
                          (print ([NL] @ ''shell: Command line too long; discarding'' @ [NL])
                             io1)\<rparr>)
            else Inr (s\<lparr>input := write_bytes (input s) (bufhead s) bytes,
                        bufhead := bufhead s + length bytes, serial := io1\<rparr>))"
  using assms by (simp add: iteration_def memchr_write_bytes Let_def)

lemma iteration_cursor:
  assumes "bufhead s < SHELL_LINE_MAX" and "length (input s) = SHELL_LINE_MAX"
    and "readBytes (SHELL_LINE_MAX - bufhead s) (serial s) = (bytes, io1)"
    and "iteration s = Inr s'"
  shows "bufhead s' < SHELL_LINE_MAX" and "length (input s') = SHELL_LINE_MAX"
    and "case index_of NL bytes of
           None \<Rightarrow> bufhead s' = (if bufhead s + length bytes < SHELL_LINE_MAX
                                 then bufhead s + length bytes else 0)
         | Some k \<Rightarrow> bufhead s' = (if bufhead s + k = 0 then 0 else length bytes - Suc k)"
proof -
  have cnt: "bufhead s + length bytes \<le> SHELL_LINE_MAX"
    using readBytes_length[of "SHELL_LINE_MAX - bufhead s" "serial s"] assms(1,3) by simp
  define buf1 where "buf1 = write_bytes (input s) (bufhead s) bytes"
  have len1: "length buf1 = SHELL_LINE_MAX"
    using cnt assms(2) by (simp add: buf1_def length_write_bytes)
  have "bufhead s' < SHELL_LINE_MAX \<and> length (input s') = SHELL_LINE_MAX
      \<and> (case index_of NL bytes of
           None \<Rightarrow> bufhead s' = (if bufhead s + length bytes < SHELL_LINE_MAX
                                 then bufhead s + length bytes else 0)
         | Some k \<Rightarrow> bufhead s' = (if bufhead s + k = 0 then 0 else length bytes - Suc k))"
  proof (cases "index_of NL bytes")
    case None
    then show ?thesis
      using iteration_no_line[OF _ assms(2,3) None] assms(1,4) len1
      by (auto simp: buf1_def SHELL_LINE_MAX_def split: if_splits)
  next
    case (Some k)
    define e where "e = bufhead s + k"
    define s1 where "s1 = s\<lparr>input := buf1, serial := io1\<rparr>"
    obtain argc s3 where sa: "split_arguments e s1 = (argc, s3)"
      by (cases "split_arguments e s1") auto
    note fr = split_arguments_frame[OF sa]
    have k: "k < length bytes"
      using Some by (simp add: index_of_Some)
    have it: "iteration s
         = (if argc = 0 then Inr s3
            else (case dispatch argc s3 of
                    Inl f \<Rightarrow> Inl f
                  | Inr io4 \<Rightarrow> Inr (prepare_next e (length bytes) (s3\<lparr>serial := io4\<rparr>))))"
      unfolding e_def
      using iteration_line[OF _ assms(2,3) Some] assms(1) sa[unfolded e_def s1_def buf1_def]
      by simp
    show ?thesis
    proof (cases "argc = 0")
      case True
      then have "e = 0"
        using fr(7) by auto
      moreover have "s' = s3"
        using it True assms(4) by simp
      ultimately show ?thesis
        using fr(1,2) assms(1) len1 Some by (simp add: s1_def e_def)
    next
      case False
      then obtain io4 where
        s': "s' = prepare_next e (length bytes) (s3\<lparr>serial := io4\<rparr>)"
        using it assms(4) by (auto split: sum.splits)
      have b3: "bufhead s3 = bufhead s" and l3: "length (input s3) = SHELL_LINE_MAX"
        using fr(1,2) len1 by (simp_all add: s1_def)
      have "e + 1 + (bufhead s + length bytes - (e + 1)) \<le> length (input s3)"
        using k cnt l3 by (simp add: e_def)
      then have "length (input s') = SHELL_LINE_MAX"
        using l3 by (simp add: s' prepare_next_def Let_def b3 length_memmove)
      moreover have "bufhead s' = length bytes - Suc k"
        by (simp add: s' prepare_next_def Let_def b3 e_def)
      moreover have "bufhead s + k \<noteq> 0"
      proof
        assume "bufhead s + k = 0"
        then have "e = 0"
          by (simp add: e_def)
        then have "argc = 0"
          using sa by (simp add: split_arguments_def tokenize_stop Let_def)
        then show False
          using False by simp
      qed
      ultimately show ?thesis
        using Some cnt k by (auto simp: SHELL_LINE_MAX_def)
    qed
  qed
  then show "bufhead s' < SHELL_LINE_MAX" and "length (input s') = SHELL_LINE_MAX"
    and "case index_of NL bytes of
           None \<Rightarrow> bufhead s' = (if bufhead s + length bytes < SHELL_LINE_MAX
                                 then bufhead s + length bytes else 0)
         | Some k \<Rightarrow> bufhead s' = (if bufhead s + k = 0 then 0 else length bytes - Suc k)"
    by simp_all
qed


lemma iteration_no_overrun:
  assumes "bufhead s \<le> SHELL_LINE_MAX"
  shows "iteration s \<noteq> Inl BufferOverrun"
proof
  assume a: "iteration s = Inl BufferOverrun"
  obtain bytes io1 where rd: "readBytes (SHELL_LINE_MAX - bufhead s) (serial s) = (bytes, io1)"
    by (cases "readBytes (SHELL_LINE_MAX - bufhead s) (serial s)") auto
  from a assms rd show False
    by (auto simp: iteration_def Let_def split: option.splits if_splits prod.splits sum.splits
             dest: dispatch_fault)
qed

lemma passes_cursor:
  assumes "bufhead s < SHELL_LINE_MAX" and "length (input s) = SHELL_LINE_MAX"
    and "passes n s = Inr s'"
  shows "bufhead s' < SHELL_LINE_MAX \<and> length (input s') = SHELL_LINE_MAX"
  using assms
proof (induction n arbitrary: s)
  case 0
  then show ?case by simp
next
  case (Suc n)
  from Suc.prems(3) obtain s1 where
    s1: "iteration s = Inr s1" and rest: "passes n s1 = Inr s'"
    by (auto split: sum.splits)
  have "bufhead s1 < SHELL_LINE_MAX" "length (input s1) = SHELL_LINE_MAX"
    using iteration_cursor(1,2)[OF Suc.prems(1,2) surjective_pairing s1] by simp_all
  then show ?case
    using rest by (rule Suc.IH)
qed

text \<open>
  Claim C9. After any number of passes from the entry of the loop, on an object whose
  line buffer has \<open>SHELL_LINE_MAX\<close> bytes: the cursor is below \<open>SHELL_LINE_MAX\<close> and
  the buffer has kept its size (no write went past its end); the cursor advanced by the
  bytes of the next read is at most \<open>SHELL_LINE_MAX\<close>, so the length passed to that read
  keeps it inside the buffer and the pass never ends in \<open>BufferOverrun\<close>; and after
  the pass the cursor is either the old cursor plus the number of bytes read (no newline,
  buffer not full), or 0 (buffer full, or an empty line, which can only sit at offset 0),
  or the number of bytes that were read after the newline.
\<close>

theorem cursor_in_bounds:
  assumes "length (input sh) = SHELL_LINE_MAX" and "passes n (main_enter sh io) = Inr s"
  shows "bufhead s < SHELL_LINE_MAX
       \<and> length (input s) = SHELL_LINE_MAX
       \<and> bufhead s + length (fst (readBytes (SHELL_LINE_MAX - bufhead s) (serial s)))
           \<le> SHELL_LINE_MAX
       \<and> iteration s \<noteq> Inl BufferOverrun
       \<and> (\<forall>s'. iteration s = Inr s' \<longrightarrow>
             bufhead s' < SHELL_LINE_MAX
           \<and> (case index_of NL (fst (readBytes (SHELL_LINE_MAX - bufhead s) (serial s))) of
                 None \<Rightarrow>
                   bufhead s'
                     = (if bufhead s
                            + length (fst (readBytes (SHELL_LINE_MAX - bufhead s) (serial s)))
                          < SHELL_LINE_MAX
                        then bufhead s
                            + length (fst (readBytes (SHELL_LINE_MAX - bufhead s) (serial s)))
                        else 0)
               | Some k \<Rightarrow>
                   bufhead s'
                     = (if bufhead s + k = 0 then 0
                        else length (fst (readBytes (SHELL_LINE_MAX - bufhead s) (serial s)))
                             - Suc k)))"
proof -
  have inv: "bufhead s < SHELL_LINE_MAX \<and> length (input s) = SHELL_LINE_MAX"
    using assms
    by (intro passes_cursor[of "main_enter sh io" n])
       (simp_all add: main_enter_def Shell.extend_def SHELL_LINE_MAX_def)
  have rd: "bufhead s + length (fst (readBytes (SHELL_LINE_MAX - bufhead s) (serial s)))
              \<le> SHELL_LINE_MAX"
    using readBytes_length[of "SHELL_LINE_MAX - bufhead s" "serial s"] inv by linarith
  have nf: "iteration s \<noteq> Inl BufferOverrun"
    using inv by (intro iteration_no_overrun) simp
  show ?thesis
    using inv rd nf iteration_cursor(1,3)[of s, OF _ _ surjective_pairing] by blast
qed

theorem cursor_in_bounds_witness:
  "\<exists>s s'. passes 2 three_bursts = Inr s \<and> iteration s = Inr s'
     \<and> bufhead s = 1 \<and> bufhead s' = 2
     \<and> length (input s) = SHELL_LINE_MAX \<and> iteration s \<noteq> Inl BufferOverrun"
proof -
  have "case passes 2 three_bursts of
          Inl f \<Rightarrow> False
        | Inr s \<Rightarrow>
            bufhead s = 1
          \<and> fst (readBytes (SHELL_LINE_MAX - bufhead s) (serial s)) = ''e''
          \<and> (case iteration s of Inl f \<Rightarrow> False | Inr s' \<Rightarrow> True)"
    by code_simp
  then obtain s s' where s: "passes 2 three_bursts = Inr s" and b: "bufhead s = 1"
    and rd: "fst (readBytes (SHELL_LINE_MAX - bufhead s) (serial s)) = ''e''"
    and s': "iteration s = Inr s'"
    by (auto split: sum.splits)
  have h: "length (input demo_shell) = SHELL_LINE_MAX"
    by (simp add: demo_shell_def Shell_counted_def)
  from cursor_in_bounds [OF h s [unfolded three_bursts_def]] s' b rd
  have "bufhead s' = 2" "length (input s) = SHELL_LINE_MAX" "iteration s \<noteq> Inl BufferOverrun"
    by (auto simp: SHELL_LINE_MAX_def)
  then show ?thesis
    using s s' b by blast
qed

subsection \<open>Bytes read after the newline\<close>

text \<open>
  When the completed line is not empty and the pass ends normally, the bytes that were
  read after the newline are at the start of the buffer afterwards and the cursor is
  just past them. This covers a line cut short at the argument limit.
\<close>

lemma leftover_preserved:
  assumes "bufhead s < SHELL_LINE_MAX" and "length (input s) = SHELL_LINE_MAX"
    and "readBytes (SHELL_LINE_MAX - bufhead s) (serial s) = (bytes, io1)"
    and "index_of NL bytes = Some k" and "bufhead s + k \<noteq> 0"
    and "iteration s = Inr s'"
  shows "bufhead s' = length bytes - Suc k"
    and "take (bufhead s') (input s') = drop (Suc k) bytes"
proof -
  have cnt: "bufhead s + length bytes \<le> SHELL_LINE_MAX"
    using readBytes_length[of "SHELL_LINE_MAX - bufhead s" "serial s"] assms(1,3) by simp
  define buf1 where "buf1 = write_bytes (input s) (bufhead s) bytes"
  define e where "e = bufhead s + k"
  define s1 where "s1 = s\<lparr>input := buf1, serial := io1\<rparr>"
  have k: "k < length bytes"
    using assms(4) by (simp add: index_of_Some)
  have len1: "length buf1 = SHELL_LINE_MAX"
    using cnt assms(2) by (simp add: buf1_def length_write_bytes)
  obtain argc s3 where sa: "split_arguments e s1 = (argc, s3)"
    by (cases "split_arguments e s1") auto
  note fr = split_arguments_frame[OF sa]
  have argc: "0 < argc"
    using fr(7) assms(5) by (simp add: e_def)
  have it: "iteration s
         = (if argc = 0 then Inr s3
            else (case dispatch argc s3 of
                    Inl f \<Rightarrow> Inl f
                  | Inr io4 \<Rightarrow> Inr (prepare_next e (length bytes) (s3\<lparr>serial := io4\<rparr>))))"
    unfolding e_def
    using iteration_line[OF _ assms(2,3,4)] assms(1) sa[unfolded e_def s1_def buf1_def]
    by simp
  then obtain io4 where s': "s' = prepare_next e (length bytes) (s3\<lparr>serial := io4\<rparr>)"
    using argc assms(6) by (auto split: sum.splits)
  have b3: "bufhead s3 = bufhead s" and l3: "length (input s3) = SHELL_LINE_MAX"
    using fr(1,2) len1 by (simp_all add: s1_def)
  define n where "n = length bytes - Suc k"
  have n: "bufhead s + length bytes - (e + 1) = n"
    using k by (simp add: n_def e_def)
  have fit: "e + 1 + n \<le> length (input s3)"
    using k cnt l3 by (simp add: e_def n_def)
  have keep: "drop (Suc e) (input s3) = drop (Suc e) buf1"
    using fr(6) by (simp add: s1_def)
  have "drop (Suc e) buf1 = drop (Suc k) bytes @ drop (bufhead s + length bytes) (input s)"
    using k assms(1,2) by (simp add: buf1_def write_bytes_def e_def)
  then have tail: "take n (drop (e + 1) (input s3)) = drop (Suc k) bytes"
    using keep by (simp add: n_def)
  show b: "bufhead s' = length bytes - Suc k"
    using n by (simp add: s' prepare_next_def Let_def b3 n_def)
  have "take n (input s') = drop (Suc k) bytes"
  proof (cases "0 < n")
    case True
    then have "input s' = memmove (input s3) 0 (e + 1) n"
      using n by (simp add: s' prepare_next_def Let_def b3)
    then show ?thesis
      using take_memmove[OF fit] tail by simp
  next
    case False
    then show ?thesis
      by (simp add: n_def)
  qed
  then show "take (bufhead s') (input s') = drop (Suc k) bytes"
    using b by (simp add: n_def)
qed

text \<open>
  Claim C1 does not hold for an empty line. A read delivers a newline followed by the
  bytes \<open>help\<close> and a second newline into the empty buffer. The pass leaves at line 122
  with the cursor still at 0 and the bytes where the read put them, behind the
  terminator, and prints no prompt; the next read overwrites them, so \<open>help\<close> is never
  run (second run below: only \<open>x\<close> is looked up). After a line that is not empty the
  same bytes are moved to the front, with the cursor at 5 (third run).
\<close>

theorem empty_line_loses_rest:
  "snapshot 5 (iteration (main_enter demo_shell (demo_io [NL # ''help'' @ [NL]])))
     = Some (0, NUL # ''help'', ''shell> '' @ [NL])
   \<and> snapshot 2 (passes 2 (main_enter demo_shell (demo_io [NL # ''help'' @ [NL], ''x'' @ [NL]])))
     = Some (0, ''x'' @ [NUL],
             ''shell> '' @ [NL] @ ''x'' @ [NL] @ ''shell: No such command: x'' @ [NL] @ ''shell> '')
   \<and> snapshot 5 (iteration (main_enter demo_shell (demo_io [''a'' @ [NL] @ ''help'' @ [NL]])))
     = Some (5, ''help'' @ [NL],
             ''shell> '' @ ''a'' @ [NL] @ ''shell: No such command: a'' @ [NL] @ ''shell> '')"
  by code_simp

subsection \<open>Lookup in a sorted table\<close>

lemma strcmp_eq: "strcmp a b = 0 \<longleftrightarrow> a = b"
  by (induction a b rule: strcmp.induct) auto

lemma strcmp_flip: "strcmp a b < 0 \<longleftrightarrow> 0 < strcmp b a"
  by (induction a b rule: strcmp.induct) auto

lemma strcmp_trans: "strcmp a b < 0 \<Longrightarrow> strcmp b c < 0 \<Longrightarrow> strcmp a c < 0"
proof (induction a b arbitrary: c rule: strcmp.induct)
  case 1
  then show ?case by simp
next
  case (2 y ys)
  then show ?case by (cases c) (auto split: if_splits)
next
  case (3 x xs)
  then show ?case by simp
next
  case (4 x xs y ys)
  then show ?case by (cases c) (auto split: if_splits)
qed


lemma halving:
  fixes x :: nat
  assumes "l < u" and "m \<le> (u - l) div 2" and "x \<le> max 1 (2 * m)"
  shows "2 * x \<le> max 1 (2 * (u - l))"
  using assms by (cases "m = 0") auto

lemma bsearch_loop_result:
  assumes "u \<le> length base" and "\<forall>j. l \<le> j \<and> j < u \<longrightarrow> name (base ! j) \<noteq> None"
  shows "\<exists>r ps. bsearch_loop key base l u probes = Inr (r, probes @ ps)
           \<and> set ps \<subseteq> {l..<u}
           \<and> 2 ^ length ps \<le> max 1 (2 * (u - l))
           \<and> (\<forall>j. r = Some j \<longrightarrow> l \<le> j \<and> j < u \<and> name (base ! j) = Some key)"
  using assms
proof (induction key base l u probes rule: bsearch_loop.induct)
  case (1 key base l u probes)
  define idx where "idx = (l + u) div 2"
  show ?case
  proof (cases "l < u")
    case False
    then show ?thesis
      by (subst bsearch_loop.simps) simp
  next
    case True
    then have idx: "l \<le> idx" "idx < u" "idx < length base"
      using "1.prems"(1) by (simp_all add: idx_def)
    then obtain n where n: "name (base ! idx) = Some n"
      using "1.prems"(2) by auto
    define c where "c = strcmp key n"
    have cmp: "cmp key (base ! idx) = Inr c"
      by (simp add: cmp_def n c_def)
    consider "c < 0" | "0 < c" | "c = 0"
      by linarith
    then show ?thesis
    proof cases
      case 1
      have eq: "bsearch_loop key base l u probes
                  = bsearch_loop key base l idx (probes @ [idx])"
        using True idx cmp 1 by (subst bsearch_loop.simps) (simp add: Let_def idx_def)
      have "\<exists>r ps. bsearch_loop key base l idx (probes @ [idx]) = Inr (r, (probes @ [idx]) @ ps)
           \<and> set ps \<subseteq> {l..<idx}
           \<and> 2 ^ length ps \<le> max 1 (2 * (idx - l))
           \<and> (\<forall>j. r = Some j \<longrightarrow> l \<le> j \<and> j < idx \<and> name (base ! j) = Some key)"
        using True idx cmp 1 "1.prems"
        by (intro "1.IH"(1)[of idx c]) (auto simp: idx_def)
      then obtain r ps where
        r: "bsearch_loop key base l idx (probes @ [idx]) = Inr (r, (probes @ [idx]) @ ps)"
        and ps: "set ps \<subseteq> {l..<idx}" "2 ^ length ps \<le> max 1 (2 * (idx - l))"
        and f: "\<forall>j. r = Some j \<longrightarrow> l \<le> j \<and> j < idx \<and> name (base ! j) = Some key"
        by blast
      have "idx - l \<le> (u - l) div 2"
        unfolding idx_def by arith
      then have "(2::nat) * 2 ^ length ps \<le> max 1 (2 * (u - l))"
        using ps(2) by (intro halving[OF True])
      then show ?thesis
        using eq r ps(1) f idx by (intro exI[of _ r] exI[of _ "idx # ps"]) auto
    next
      case 2
      have eq: "bsearch_loop key base l u probes
                  = bsearch_loop key base (idx + 1) u (probes @ [idx])"
        using True idx cmp 2 by (subst bsearch_loop.simps) (simp add: Let_def idx_def)
      have "\<exists>r ps. bsearch_loop key base (idx + 1) u (probes @ [idx])
                      = Inr (r, (probes @ [idx]) @ ps)
           \<and> set ps \<subseteq> {idx + 1..<u}
           \<and> 2 ^ length ps \<le> max 1 (2 * (u - (idx + 1)))
           \<and> (\<forall>j. r = Some j \<longrightarrow> idx + 1 \<le> j \<and> j < u \<and> name (base ! j) = Some key)"
        using True idx cmp 2 "1.prems"
        by (intro "1.IH"(2)[of idx c]) (auto simp: idx_def)
      then obtain r ps where
        r: "bsearch_loop key base (idx + 1) u (probes @ [idx]) = Inr (r, (probes @ [idx]) @ ps)"
        and ps: "set ps \<subseteq> {idx + 1..<u}" "2 ^ length ps \<le> max 1 (2 * (u - (idx + 1)))"
        and f: "\<forall>j. r = Some j \<longrightarrow> idx + 1 \<le> j \<and> j < u \<and> name (base ! j) = Some key"
        by blast
      have "u - (idx + 1) \<le> (u - l) div 2"
        unfolding idx_def by arith
      then have "(2::nat) * 2 ^ length ps \<le> max 1 (2 * (u - l))"
        using ps(2) by (intro halving[OF True])
      then show ?thesis
        using eq r ps(1) f idx by (intro exI[of _ r] exI[of _ "idx # ps"]) auto
    next
      case 3
      have eq: "bsearch_loop key base l u probes = Inr (Some idx, probes @ [idx])"
        using True idx cmp 3 by (subst bsearch_loop.simps) (simp add: Let_def idx_def)
      have "key = n"
        using 3 by (simp add: c_def strcmp_eq)
      then show ?thesis
        using eq idx n True by (intro exI[of _ "Some idx"] exI[of _ "[idx]"]) auto
    qed
  qed
qed


lemma sorted_table_names:
  assumes "sorted_table (take n base)" and "n \<le> length base"
    and "i < j" and "j < n"
    and "name (base ! i) = Some a" and "name (base ! j) = Some b"
  shows "strcmp a b < 0"
proof -
  have "sorted_wrt (\<lambda>a b. strcmp a b < 0) (names (take n base))"
    using assms(1) by (simp add: sorted_table_def)
  moreover have "length (names (take n base)) = n"
    using assms(2) by (simp add: names_def)
  moreover have "names (take n base) ! i = a" "names (take n base) ! j = b"
    using assms(2-6) by (simp_all add: names_def)
  ultimately show ?thesis
    using assms(3,4) by (auto simp: sorted_wrt_iff_nth_less)
qed

lemma sorted_table_named:
  "sorted_table (take n base) \<Longrightarrow> n \<le> length base \<Longrightarrow> j < n \<Longrightarrow> name (base ! j) \<noteq> None"
  by (auto simp: sorted_table_def set_conv_nth)

lemma bsearch_loop_finds:
  assumes "u \<le> n" and "n \<le> length base" and "sorted_table (take n base)"
    and "l \<le> j" and "j < u" and "name (base ! j) = Some key"
  shows "\<exists>ps. bsearch_loop key base l u probes = Inr (Some j, probes @ ps)"
  using assms
proof (induction key base l u probes rule: bsearch_loop.induct)
  case (1 key base l u probes)
  define idx where "idx = (l + u) div 2"
  have lu: "l < u"
    using "1.prems"(4,5) by simp
  have idx: "l \<le> idx" "idx < u" "idx < length base" "idx < n"
    using lu "1.prems"(1,2) by (simp_all add: idx_def)
  obtain m where m: "name (base ! idx) = Some m"
    using sorted_table_named[OF "1.prems"(3,2) idx(4)] by auto
  define c where "c = strcmp key m"
  have cmp: "cmp key (base ! idx) = Inr c"
    by (simp add: cmp_def m c_def)
  have below: "j < idx \<Longrightarrow> c < 0"
    using sorted_table_names[OF "1.prems"(3,2) _ idx(4) "1.prems"(6) m] by (simp add: c_def)
  have above: "idx < j \<Longrightarrow> 0 < c"
    using sorted_table_names[OF "1.prems"(3,2) _ _ m "1.prems"(6), of ] "1.prems"(1,5)
    by (simp add: c_def strcmp_flip[of m key])
  have same: "j = idx \<Longrightarrow> c = 0"
    using m "1.prems"(6) by (simp add: c_def strcmp_eq)
  consider "j < idx" | "idx < j" | "j = idx"
    by linarith
  then show ?case
  proof cases
    case 1
    have eq: "bsearch_loop key base l u probes
                = bsearch_loop key base l idx (probes @ [idx])"
      using lu idx cmp below[OF 1]
      by (subst bsearch_loop.simps) (simp add: Let_def idx_def)
    have "\<exists>ps. bsearch_loop key base l idx (probes @ [idx]) = Inr (Some j, (probes @ [idx]) @ ps)"
      using lu idx cmp below[OF 1] 1 "1.prems"
      by (intro "1.IH"(1)[of idx c]) (auto simp: idx_def)
    then show ?thesis
      using eq by auto
  next
    case 2
    have eq: "bsearch_loop key base l u probes
                = bsearch_loop key base (idx + 1) u (probes @ [idx])"
      using lu idx cmp above[OF 2]
      by (subst bsearch_loop.simps) (simp add: Let_def idx_def)
    have "\<exists>ps. bsearch_loop key base (idx + 1) u (probes @ [idx])
                  = Inr (Some j, (probes @ [idx]) @ ps)"
      using lu idx cmp above[OF 2] 2 "1.prems"
      by (intro "1.IH"(2)[of idx c]) (auto simp: idx_def)
    then show ?thesis
      using eq by auto
  next
    case 3
    have "bsearch_loop key base l u probes = Inr (Some idx, probes @ [idx])"
      using lu idx cmp same[OF 3]
      by (subst bsearch_loop.simps) (simp add: Let_def idx_def)
    then show ?thesis
      using 3 by auto
  qed
qed

lemma bsearch_result:
  assumes "nmemb \<le> length base" and "\<forall>j<nmemb. name (base ! j) \<noteq> None"
  shows "\<exists>r ps. bsearch key base nmemb = Inr (r, ps)
           \<and> set ps \<subseteq> {..<nmemb}
           \<and> 2 ^ length ps \<le> max 1 (2 * nmemb)
           \<and> (\<forall>j. r = Some j \<longrightarrow> j < nmemb \<and> name (base ! j) = Some key)"
  using bsearch_loop_result[of nmemb base 0 key "[]"] assms
  by (fastforce simp: bsearch_def)

lemma bsearch_finds:
  assumes "nmemb \<le> length base" and "sorted_table (take nmemb base)"
    and "j < nmemb" and "name (base ! j) = Some key"
  shows "\<exists>ps. bsearch key base nmemb = Inr (Some j, ps)"
  using bsearch_loop_finds[of nmemb nmemb base 0 j key "[]"] assms
  by (simp add: bsearch_def)

subsection \<open>Dispatch\<close>

lemma prepare_next_prompt:
  "outgoing (serial (prepare_next e n x)) = outgoing (serial x) @ ''shell> ''"
  by (simp add: prepare_next_def Let_def prompt_def print_def setTimeout_def)

text \<open>
  Claim C3. The table in use (the first \<open>cmd_count\<close> entries) is sorted, and a pass
  completes a line with at least one argument. Then the lookup of the first argument
  ends without a fault after \<open>n\<close> comparisons with \<open>2 ^ n \<le> max 1 (2 * cmd_count)\<close>,
  that is at most \<open>log\<^sub>2 cmd_count + 1\<close> of them. If entry \<open>j\<close> of the table bears
  that name (and has a handler), the lookup returns \<open>j\<close>, exactly that handler is called
  with \<open>argc\<close>, the argument strings and the transport, and the pass ends normally
  with the transport as the handler left it. If no entry bears that name, the lookup
  returns nothing and the pass ends normally after writing
  \<open>shell: No such command: \<close>, the name and a newline. In both cases the pass ends
  with the prompt.
\<close>

theorem dispatch_by_name:
  assumes "cmd_count s0 \<le> length (commands s0)"
    and "sorted_table (take (cmd_count s0) (commands s0))"
    and "bufhead s0 \<le> SHELL_LINE_MAX" and "length (input s0) = SHELL_LINE_MAX"
    and "length (argv s0) = SHELL_ARG_MAX"
    and "readBytes (SHELL_LINE_MAX - bufhead s0) (serial s0) = (bytes, io1)"
    and "index_of NL bytes = Some k"
    and "split_arguments (bufhead s0 + k)
           (s0\<lparr>input := write_bytes (input s0) (bufhead s0) bytes, serial := io1\<rparr>) = (argc, s)"
    and "0 < argc"
  shows "\<exists>r ps. bsearch (hd (arguments argc s)) (commands s) (cmd_count s) = Inr (r, ps)
      \<and> 2 ^ length ps \<le> max 1 (2 * cmd_count s)
      \<and> (\<forall>j h. j < cmd_count s \<and> name (commands s ! j) = Some (hd (arguments argc s))
                \<and> entry (commands s ! j) = Some h \<longrightarrow>
             r = Some j
           \<and> dispatch argc s = Inr (snd (h argc (arguments argc s) (serial s)))
           \<and> iteration s0
               = Inr (prepare_next (bufhead s0 + k) (length bytes)
                        (s\<lparr>serial := snd (h argc (arguments argc s) (serial s))\<rparr>)))
      \<and> ((\<forall>j<cmd_count s. name (commands s ! j) \<noteq> Some (hd (arguments argc s))) \<longrightarrow>
             r = None
           \<and> iteration s0
               = Inr (prepare_next (bufhead s0 + k) (length bytes)
                        (s\<lparr>serial := print (''shell: No such command: ''
                                              @ hd (arguments argc s) @ [NL]) (serial s)\<rparr>)))
      \<and> (\<forall>x. outgoing (serial (prepare_next (bufhead s0 + k) (length bytes) x))
              = outgoing (serial x) @ ''shell> '')"
proof -
  note fr = split_arguments_frame[OF assms(8)]
  define key where "key = hd (arguments argc s)"
  have tab: "commands s = commands s0" "cmd_count s = cmd_count s0"
    using fr(4,5) by simp_all
  have av: "argv s \<noteq> []"
    using fr(3) assms(5) by (auto simp: SHELL_ARG_MAX_def)
  have key: "cstr (input s) (argv s ! 0) = key"
    using av assms(9) by (cases "argv s") (auto simp: key_def arguments_def take_Suc_conv_app_nth hd_conv_nth)
  have named: "\<forall>j<cmd_count s. name (commands s ! j) \<noteq> None"
    using sorted_table_named[OF assms(2,1)] tab by simp
  obtain r ps where
    bs: "bsearch key (commands s) (cmd_count s) = Inr (r, ps)"
    and cnt: "2 ^ length ps \<le> max 1 (2 * cmd_count s)"
    and hit: "\<forall>j. r = Some j \<longrightarrow> j < cmd_count s \<and> name (commands s ! j) = Some key"
    using bsearch_result[of "cmd_count s" "commands s" key] assms(1) named tab by auto
  have it: "iteration s0
         = (case dispatch argc s of
              Inl f \<Rightarrow> Inl f
            | Inr io4 \<Rightarrow>
                Inr (prepare_next (bufhead s0 + k) (length bytes) (s\<lparr>serial := io4\<rparr>)))"
    using iteration_line[OF assms(3,4,6,7)] assms(8,9) by simp
  have found: "r = Some j
           \<and> dispatch argc s = Inr (snd (h argc (arguments argc s) (serial s)))
           \<and> iteration s0
               = Inr (prepare_next (bufhead s0 + k) (length bytes)
                        (s\<lparr>serial := snd (h argc (arguments argc s) (serial s))\<rparr>))"
    if a: "j < cmd_count s" and b: "name (commands s ! j) = Some key"
      and c: "entry (commands s ! j) = Some h"
    for j h
  proof -
    obtain ps' where "bsearch key (commands s) (cmd_count s) = Inr (Some j, ps')"
      using bsearch_finds[of "cmd_count s" "commands s" j key] a b assms(1,2) tab
      by auto
    then have r: "r = Some j"
      using bs by simp
    then have "dispatch argc s = Inr (snd (h argc (arguments argc s) (serial s)))"
      using bs c by (simp add: dispatch_def key)
    then show ?thesis
      using r it by simp
  qed
  have missing: "r = None
           \<and> iteration s0
               = Inr (prepare_next (bufhead s0 + k) (length bytes)
                        (s\<lparr>serial := print (''shell: No such command: '' @ key @ [NL])
                                        (serial s)\<rparr>))"
    if "\<forall>j<cmd_count s. name (commands s ! j) \<noteq> Some key"
  proof -
    have r: "r = None"
      using hit that by (cases r) auto
    then have "dispatch argc s
                 = Inr (print (''shell: No such command: '' @ key @ [NL]) (serial s))"
      using bs by (simp add: dispatch_def key)
    then show ?thesis
      using r it by simp
  qed
  show ?thesis
    using bs cnt found missing prepare_next_prompt unfolding key_def by blast
qed


theorem dispatch_by_name_witness:
  "snapshot 0 (iteration help_state)
     = Some (0, [], ''shell> '' @ ''help'' @ [NL] @ ''commands: echo help'' @ [NL] @ ''shell> '')
   \<and> snapshot 0 (iteration foo_state)
     = Some (0, [], ''shell> '' @ ''foo'' @ [NL] @ ''shell: No such command: foo'' @ [NL]
                      @ ''shell> '')"
proof -
  have found: "snapshot 0 (iteration help_state)
     = Some (0, [], ''shell> '' @ ''help'' @ [NL] @ ''commands: echo help'' @ [NL] @ ''shell> '')"
  proof -
    have st: "bufhead help_state = 0" "commands help_state = demo_table"
      "cmd_count help_state = 2"
      "input help_state = replicate SHELL_LINE_MAX NUL"
      "argv help_state = replicate SHELL_ARG_MAX 0"
      "serial help_state = \<lparr>incoming = [''help'' @ [NL]], outgoing = ''shell> '', timeout = 20\<rparr>"
      by (simp_all add: help_state_def main_enter_def table_shell_def demo_io_def
            Shell_counted_def Shell.extend_def prompt_def print_def setTimeout_def)
    have h1: "cmd_count help_state \<le> length (commands help_state)"
      by (simp add: st demo_table_def)
    have h2: "sorted_table (take (cmd_count help_state) (commands help_state))"
      by (simp add: st demo_table_def sorted_table_def names_def numeral_2_eq_2)
    have h3: "bufhead help_state \<le> SHELL_LINE_MAX" "length (input help_state) = SHELL_LINE_MAX"
      "length (argv help_state) = SHELL_ARG_MAX"
      by (simp_all add: st)
    have h6: "readBytes (SHELL_LINE_MAX - bufhead help_state) (serial help_state)
                = (''help'' @ [NL], help_read)"
      by (simp add: st readBytes_def SHELL_LINE_MAX_def help_read_def)
    have h7: "index_of NL (''help'' @ [NL]) = Some 4"
      by simp
    have h8: "split_arguments (bufhead help_state + 4)
                (help_state\<lparr>input := write_bytes (input help_state) (bufhead help_state)
                                         (''help'' @ [NL]),
                            serial := help_read\<rparr>)
              = (fst help_line, snd help_line)"
      by (simp add: help_line_def)
    have h9: "0 < fst help_line"
      using split_arguments_frame(7)[OF h8] by simp
    have args: "arguments (fst help_line) (snd help_line) = [''help'']"
      "outgoing (serial (snd help_line)) = ''shell> '' @ ''help'' @ [NL]"
      by code_simp+
    have tab: "commands (snd help_line) = demo_table" "cmd_count (snd help_line) = 2"
      "bufhead (snd help_line) = 0"
      using split_arguments_frame(1,4,5)[OF h8] by (simp_all add: st)
    from dispatch_by_name [OF h1 h2 h3 h6 h7 h8 h9]
    have "\<forall>j h. j < cmd_count (snd help_line)
              \<and> name (commands (snd help_line) ! j)
                  = Some (hd (arguments (fst help_line) (snd help_line)))
              \<and> entry (commands (snd help_line) ! j) = Some h \<longrightarrow>
            iteration help_state
              = Inr (prepare_next (bufhead help_state + 4) (length (''help'' @ [NL]))
                       (snd help_line
                          \<lparr>serial := snd (h (fst help_line)
                                            (arguments (fst help_line) (snd help_line))
                                            (serial (snd help_line)))\<rparr>))"
      by blast
    then have "1 < cmd_count (snd help_line)
              \<and> name (commands (snd help_line) ! 1)
                  = Some (hd (arguments (fst help_line) (snd help_line)))
              \<and> entry (commands (snd help_line) ! 1) = Some help_handler \<longrightarrow>
            iteration help_state
              = Inr (prepare_next (bufhead help_state + 4) (length (''help'' @ [NL]))
                       (snd help_line
                          \<lparr>serial := snd (help_handler (fst help_line)
                                            (arguments (fst help_line) (snd help_line))
                                            (serial (snd help_line)))\<rparr>))"
      by blast
    then have "iteration help_state
              = Inr (prepare_next (bufhead help_state + 4) (length (''help'' @ [NL]))
                       (snd help_line
                          \<lparr>serial := snd (help_handler (fst help_line)
                                            (arguments (fst help_line) (snd help_line))
                                            (serial (snd help_line)))\<rparr>))"
      by (simp add: tab args demo_table_def)
    then show ?thesis
      by (simp add: snapshot_def prepare_next_def Let_def tab args help_handler_def prompt_def
            print_def setTimeout_def)
  qed
  have missing: "snapshot 0 (iteration foo_state)
     = Some (0, [], ''shell> '' @ ''foo'' @ [NL] @ ''shell: No such command: foo'' @ [NL]
                      @ ''shell> '')"
  proof -
    have st: "bufhead foo_state = 0" "commands foo_state = demo_table"
      "cmd_count foo_state = 2"
      "input foo_state = replicate SHELL_LINE_MAX NUL"
      "argv foo_state = replicate SHELL_ARG_MAX 0"
      "serial foo_state = \<lparr>incoming = [''foo'' @ [NL]], outgoing = ''shell> '', timeout = 20\<rparr>"
      by (simp_all add: foo_state_def main_enter_def table_shell_def demo_io_def
            Shell_counted_def Shell.extend_def prompt_def print_def setTimeout_def)
    have h1: "cmd_count foo_state \<le> length (commands foo_state)"
      by (simp add: st demo_table_def)
    have h2: "sorted_table (take (cmd_count foo_state) (commands foo_state))"
      by (simp add: st demo_table_def sorted_table_def names_def numeral_2_eq_2)
    have h3: "bufhead foo_state \<le> SHELL_LINE_MAX" "length (input foo_state) = SHELL_LINE_MAX"
      "length (argv foo_state) = SHELL_ARG_MAX"
      by (simp_all add: st)
    have h6: "readBytes (SHELL_LINE_MAX - bufhead foo_state) (serial foo_state)
                = (''foo'' @ [NL], help_read)"
      by (simp add: st readBytes_def SHELL_LINE_MAX_def help_read_def)
    have h7: "index_of NL (''foo'' @ [NL]) = Some 3"
      by simp
    have h8: "split_arguments (bufhead foo_state + 3)
                (foo_state\<lparr>input := write_bytes (input foo_state) (bufhead foo_state)
                                        (''foo'' @ [NL]),
                           serial := help_read\<rparr>)
              = (fst foo_line, snd foo_line)"
      by (simp add: foo_line_def)
    have h9: "0 < fst foo_line"
      using split_arguments_frame(7)[OF h8] by simp
    have args: "arguments (fst foo_line) (snd foo_line) = [''foo'']"
      "outgoing (serial (snd foo_line)) = ''shell> '' @ ''foo'' @ [NL]"
      by code_simp+
    have tab: "commands (snd foo_line) = demo_table" "cmd_count (snd foo_line) = 2"
      "bufhead (snd foo_line) = 0"
      using split_arguments_frame(1,4,5)[OF h8] by (simp_all add: st)
    have none: "\<forall>j<cmd_count (snd foo_line).
                  name (commands (snd foo_line) ! j)
                    \<noteq> Some (hd (arguments (fst foo_line) (snd foo_line)))"
      by (simp add: tab args demo_table_def less_Suc_eq numeral_2_eq_2)
    from dispatch_by_name [OF h1 h2 h3 h6 h7 h8 h9]
    have "(\<forall>j<cmd_count (snd foo_line).
              name (commands (snd foo_line) ! j)
                \<noteq> Some (hd (arguments (fst foo_line) (snd foo_line)))) \<longrightarrow>
          iteration foo_state
            = Inr (prepare_next (bufhead foo_state + 3) (length (''foo'' @ [NL]))
                     (snd foo_line
                        \<lparr>serial := print (''shell: No such command: ''
                                            @ hd (arguments (fst foo_line) (snd foo_line))
                                            @ [NL])
                                     (serial (snd foo_line))\<rparr>))"
      by blast
    then have "iteration foo_state
            = Inr (prepare_next (bufhead foo_state + 3) (length (''foo'' @ [NL]))
                     (snd foo_line
                        \<lparr>serial := print (''shell: No such command: ''
                                            @ hd (arguments (fst foo_line) (snd foo_line))
                                            @ [NL])
                                     (serial (snd foo_line))\<rparr>))"
      using none by blast
    then show ?thesis
      by (simp add: snapshot_def prepare_next_def Let_def tab args prompt_def print_def
            setTimeout_def)
  qed
  from found missing show ?thesis
    by simp
qed

subsection \<open>Counting the commands of a terminated table\<close>

lemma length_takeWhile_less:
  "x \<in> set xs \<Longrightarrow> \<not> P x \<Longrightarrow> length (takeWhile P xs) < length xs"
  by (induction xs) auto

lemma count_commands_scan:
  assumes "n \<le> j" and "j < length cmds" and "name (cmds ! j) = None"
  shows "count_commands cmds n
           = Inr (n + length (takeWhile (\<lambda>c. name c \<noteq> None) (drop n cmds)))"
  using assms
proof (induction cmds n rule: count_commands.induct)
  case (1 cmds n)
  have n: "n < length cmds"
    using "1.prems" by simp
  then have dr: "drop n cmds = cmds ! n # drop (Suc n) cmds"
    by (simp add: Cons_nth_drop_Suc)
  show ?case
  proof (cases "name (cmds ! n) \<noteq> None")
    case True
    then have "n \<noteq> j"
      using "1.prems"(3) by auto
    then have "count_commands cmds (n + 1)
                 = Inr (n + 1 + length (takeWhile (\<lambda>c. name c \<noteq> None) (drop (n + 1) cmds)))"
      using n True "1.prems" by (intro "1.IH") simp_all
    then show ?thesis
      using n True by (subst count_commands.simps) (simp add: dr)
  next
    case False
    then show ?thesis
      using n by (subst count_commands.simps) (simp add: dr)
  qed
qed

text \<open>
  Claim C10. For a table whose last entry has a null name, the one-argument constructor
  succeeds and sets \<open>cmd_count\<close> to the number of entries before the first entry with a
  null name: that entry sits at index \<open>cmd_count\<close> and every entry below has a name. A
  lookup on the object then never faults, compares the key only with entries below
  \<open>cmd_count\<close>, and can only return such an entry, whose name is the key; when these
  entries are sorted, each of them is found by its name.
\<close>

theorem terminated_table_count:
  assumes "cmds \<noteq> []" and "name (last cmds) = None"
  shows "\<exists>sh. Shell_terminated mem_input mem_argv cmds = Inr sh
           \<and> commands sh = cmds
           \<and> cmd_count sh = length (takeWhile (\<lambda>c. name c \<noteq> None) cmds)
           \<and> cmd_count sh < length cmds
           \<and> name (cmds ! cmd_count sh) = None
           \<and> (\<forall>j<cmd_count sh. name (cmds ! j) \<noteq> None)
           \<and> (\<forall>key. \<exists>r ps. bsearch key (commands sh) (cmd_count sh) = Inr (r, ps)
                  \<and> set ps \<subseteq> {..<cmd_count sh}
                  \<and> (\<forall>j. r = Some j \<longrightarrow> j < cmd_count sh \<and> name (cmds ! j) = Some key))
           \<and> (sorted_table (take (cmd_count sh) cmds) \<longrightarrow>
                (\<forall>j key. j < cmd_count sh \<and> name (cmds ! j) = Some key \<longrightarrow>
                   (\<exists>ps. bsearch key (commands sh) (cmd_count sh) = Inr (Some j, ps))))"
proof -
  define n where "n = length (takeWhile (\<lambda>c. name c \<noteq> None) cmds)"
  define sh where "sh = Shell_counted mem_input mem_argv cmds n"
  have "count_commands cmds 0 = Inr (0 + length (takeWhile (\<lambda>c. name c \<noteq> None) (drop 0 cmds)))"
    using assms by (intro count_commands_scan[of 0 "length cmds - 1"]) (simp_all add: last_conv_nth)
  then have ct: "Shell_terminated mem_input mem_argv cmds = Inr sh"
    by (simp add: Shell_terminated_def sh_def n_def)
  have lt: "n < length cmds"
    unfolding n_def using assms by (intro length_takeWhile_less[of "last cmds"]) simp_all
  have stop: "name (cmds ! n) = None"
    using nth_length_takeWhile[of "\<lambda>c. name c \<noteq> None" cmds] lt by (simp add: n_def)
  have named: "\<forall>j<n. name (cmds ! j) \<noteq> None"
    using nth_mem[of _ "takeWhile (\<lambda>c. name c \<noteq> None) cmds"] set_takeWhileD
    by (fastforce simp: n_def takeWhile_nth)
  have look: "\<exists>r ps. bsearch key cmds n = Inr (r, ps) \<and> set ps \<subseteq> {..<n}
                  \<and> (\<forall>j. r = Some j \<longrightarrow> j < n \<and> name (cmds ! j) = Some key)" for key
    using bsearch_result[of n cmds key] lt named by auto
  have finds: "\<exists>ps. bsearch key cmds n = Inr (Some j, ps)"
    if "sorted_table (take n cmds)" and "j < n" and "name (cmds ! j) = Some key" for j key
    using bsearch_finds[of n cmds j key] that lt by simp
  have sh: "commands sh = cmds" "cmd_count sh = n"
    by (simp_all add: sh_def Shell_counted_def)
  show ?thesis
    unfolding n_def[symmetric]
    using ct lt stop named look finds
    by (intro exI[of _ sh]) (simp add: sh)
qed

theorem terminated_table_count_witness:
  "\<exists>sh ps. Shell_terminated (replicate SHELL_LINE_MAX NUL) (replicate SHELL_ARG_MAX 0) demo_table
           = Inr sh
     \<and> cmd_count sh = 2 \<and> name (demo_table ! 2) = None
     \<and> bsearch ''help'' (commands sh) (cmd_count sh) = Inr (Some 1, ps)"
proof -
  have h1: "demo_table \<noteq> []"
    by (simp add: demo_table_def)
  have h2: "name (last demo_table) = None"
    by (simp add: demo_table_def)
  have n: "length (takeWhile (\<lambda>c. name c \<noteq> None) demo_table) = 2"
    by (simp add: demo_table_def)
  have srt: "sorted_table (take 2 demo_table)"
    by (simp add: demo_table_def sorted_table_def names_def numeral_2_eq_2)
  have nm: "(1::nat) < 2 \<and> name (demo_table ! 1) = Some ''help''"
    by (simp add: demo_table_def)
  from terminated_table_count
         [OF h1 h2, of "replicate SHELL_LINE_MAX NUL" "replicate SHELL_ARG_MAX 0"]
  obtain sh where sh: "Shell_terminated (replicate SHELL_LINE_MAX NUL)
                         (replicate SHELL_ARG_MAX 0) demo_table = Inr sh"
    and c: "cmd_count sh = 2" and z: "name (demo_table ! cmd_count sh) = None"
    and f: "sorted_table (take (cmd_count sh) demo_table) \<longrightarrow>
              (\<forall>j key. j < cmd_count sh \<and> name (demo_table ! j) = Some key \<longrightarrow>
                 (\<exists>ps. bsearch key (commands sh) (cmd_count sh) = Inr (Some j, ps)))"
    unfolding n by blast
  from f srt c have "\<forall>j key. j < cmd_count sh \<and> name (demo_table ! j) = Some key \<longrightarrow>
                 (\<exists>ps. bsearch key (commands sh) (cmd_count sh) = Inr (Some j, ps))"
    by simp
  then have "(1::nat) < cmd_count sh \<and> name (demo_table ! 1) = Some ''help'' \<longrightarrow>
                 (\<exists>ps. bsearch ''help'' (commands sh) (cmd_count sh) = Inr (Some 1, ps))"
    by blast
  then obtain ps where
    "bsearch ''help'' (commands sh) (cmd_count sh) = Inr (Some 1, ps)"
    using nm c by auto
  then show ?thesis
    using sh c z by auto
qed

subsection \<open>Starting and stopping\<close>

lemma launch_fields [simp]:
  "f_begin (launch sh cs) = f_begin sh" "f_end (launch sh cs) = f_end sh"
  "stream (launch sh cs) = stream sh" "tasks (launch sh cs) = []"
  "pending (launch sh cs) = cs" "polling (launch sh cs) = False" "rounds (launch sh cs) = 0"
  by (simp_all add: launch_def Shell.extend_def)

lemma demo_flags [simp]:
  "f_begin demo_shell = False" "f_end demo_shell = False" "stream demo_shell = None"
  by (simp_all add: demo_shell_def Shell_counted_def)

text \<open>
  Claim C2 does not hold. On an object that was never started the user calls \<^verbatim>\<open>end()\<close>
  and then \<^verbatim>\<open>begin\<close>. The call of \<^verbatim>\<open>end()\<close> returns at its first test, but with
  \<open>f_end\<close> set. The task that \<^verbatim>\<open>begin\<close> creates then finds the loop test false at once,
  goes to the cleanup and deletes itself without having run the loop body a single time.
\<close>

theorem end_when_idle_leaves_request:
  "f_end (run [User, User] (launch demo_shell [End, Begin 0])) = True
   \<and> pending (run [User, User] (launch demo_shell [End, Begin 0])) = [Begin 0]
   \<and> tasks (run [User, User, User] (launch demo_shell [End, Begin 0])) = [AtEntry]
   \<and> tasks (run [User, User, User, Task 0, Task 0] (launch demo_shell [End, Begin 0]))
       = [ClearEnd]
   \<and> tasks (run [User, User, User, Task 0, Task 0, Task 0, Task 0, Task 0]
              (launch demo_shell [End, Begin 0])) = [Gone]
   \<and> rounds (run [User, User, User, Task 0, Task 0, Task 0, Task 0, Task 0]
              (launch demo_shell [End, Begin 0])) = 0"
  by (simp add: user_step_def begin_call_def)

text \<open>
  Claim C7 does not hold when the second \<^verbatim>\<open>begin\<close> comes before the first task has
  taken its first step: \<open>f_begin\<close> is stored by the task, not by \<^verbatim>\<open>begin\<close>, so the
  second call creates a second task and replaces the recorded transport. When the task
  has taken that step first, the second call changes nothing.
\<close>

theorem begin_twice_spawns_twice:
  "tasks (run [User, User] (launch demo_shell [Begin 1, Begin 2])) = [AtEntry, AtEntry]
   \<and> stream (run [User, User] (launch demo_shell [Begin 1, Begin 2])) = Some 2
   \<and> tasks (run [User, Task 0, User] (launch demo_shell [Begin 1, Begin 2])) = [AtTest]
   \<and> stream (run [User, Task 0, User] (launch demo_shell [Begin 1, Begin 2])) = Some 1"
  by (simp add: user_step_def begin_call_def)

lemma begin_when_running: "f_begin s \<Longrightarrow> begin_call port s = s"
  by (simp add: begin_call_def)

text \<open>
  Claim C8 as stated fails in three ways. Called right after \<^verbatim>\<open>begin\<close>, before the task
  has taken its first step, \<^verbatim>\<open>end()\<close> returns at once and leaves the task at its entry
  with \<open>f_end\<close> set. Called on a running loop, it returns as soon as the task has
  cleared \<open>f_begin\<close>, and the task has then still to delete itself. And when two tasks
  run the loop (after two calls of \<^verbatim>\<open>begin\<close> in a row), it returns when the first of
  them has cleared the flags, and the second goes on with the loop body.
\<close>

theorem end_returns_early:
  "pending (run [User, User, User] (launch demo_shell [Begin 1, End])) = []
   \<and> tasks (run [User, User, User] (launch demo_shell [Begin 1, End])) = [AtEntry]
   \<and> f_end (run [User, User, User] (launch demo_shell [Begin 1, End])) = True
   \<and> f_begin (run [User, Task 0, Task 0] (launch demo_shell [Begin 1, End])) = True
   \<and> tasks (run [User, Task 0, Task 0] (launch demo_shell [Begin 1, End])) = [InBody]
   \<and> pending (run [User, Task 0, Task 0, User, Task 0, Task 0, Task 0, Task 0, User]
                (launch demo_shell [Begin 1, End])) = []
   \<and> tasks (run [User, Task 0, Task 0, User, Task 0, Task 0, Task 0, Task 0, User]
                (launch demo_shell [Begin 1, End])) = [DeleteSelf]
   \<and> f_begin (run [User, User, Task 0, Task 1] (launch demo_shell [Begin 1, Begin 2, End]))
       = True
   \<and> tasks (run [User, User, Task 0, Task 1] (launch demo_shell [Begin 1, Begin 2, End]))
       = [AtTest, AtTest]
   \<and> pending (run [User, User, Task 0, Task 1, User, Task 0, Task 0, Task 0, User, Task 1]
                (launch demo_shell [Begin 1, Begin 2, End])) = []
   \<and> tasks (run [User, User, Task 0, Task 1, User, Task 0, Task 0, Task 0, User, Task 1]
                (launch demo_shell [Begin 1, Begin 2, End])) = [DeleteSelf, InBody]"
  by (simp add: user_step_def begin_call_def)

lemma run_append: "run (xs @ ys) s = run ys (run xs s)"
  by (induction xs arbitrary: s) auto

lemma main_step_tasks [simp]: "tasks (snd (main_step p s)) = tasks s"
  by (cases p) auto

lemma task_live:
  "i < length (tasks s) \<Longrightarrow>
   step (Task i) s
     = (snd (main_step (tasks s ! i) s))\<lparr>tasks := (tasks s)[i := fst (main_step (tasks s ! i) s)]\<rparr>"
  by (cases "tasks s ! i") (auto split: prod.splits)

lemma task_retired:
  "j < length (tasks s) \<Longrightarrow> tasks s ! j = DeleteSelf \<or> tasks s ! j = Gone \<Longrightarrow>
   step (Task j) s = s\<lparr>tasks := (tasks s)[j := Gone]\<rparr>"
  by auto

lemma others_retired_update:
  "others_retired i ps \<Longrightarrow> others_retired i (ps[i := p])"
  by (auto simp: others_retired_def nth_list_update)

lemma others_retired_gone:
  "others_retired i ps \<Longrightarrow> j \<noteq> i \<Longrightarrow> others_retired i (ps[j := Gone])"
  unfolding others_retired_def
  by (metis length_list_update nth_list_update_eq nth_list_update_neq)

text \<open>A step of another task than the one at \<open>i\<close> changes at most that task, to \<open>Gone\<close>.\<close>

lemma other_task:
  assumes "others_retired i (tasks s)" and "j \<noteq> i"
  shows "step (Task j) s = s \<or> step (Task j) s = s\<lparr>tasks := (tasks s)[j := Gone]\<rparr>"
proof (cases "j < length (tasks s)")
  case True
  then have "tasks s ! j = DeleteSelf \<or> tasks s ! j = Gone"
    using assms by (simp add: others_retired_def)
  then show ?thesis
    using task_retired[OF True] by simp
next
  case False
  then show ?thesis by simp
qed

lemma before_user: "before_stop i s \<Longrightarrow> during_stop i (tasks s ! i) (user_step s)"
  by (auto simp: before_stop_def during_stop_def user_step_def)

lemma before_task: "before_stop i s \<Longrightarrow> before_stop i (step (Task j) s)"
proof (cases "j = i")
  case True
  assume "before_stop i s"
  then show ?thesis
    unfolding True
    by (auto simp: before_stop_def task_live others_retired_update simp del: step.simps)
next
  case False
  assume b: "before_stop i s"
  then have "others_retired i (tasks s)"
    by (simp add: before_stop_def)
  from other_task[OF this False] show ?thesis
    using b False by (auto simp: before_stop_def others_retired_gone simp del: step.simps)
qed

lemma during_user:
  "during_stop i p s \<Longrightarrow>
   (if 0 < distance p then user_step s = s else after_stop i (user_step s))"
  by (cases p) (auto simp: during_stop_def after_stop_def user_step_def)

lemma during_task:
  "during_stop i p s \<Longrightarrow>
   during_stop i (fst (main_step p s)) (step (Task i) s)
   \<and> distance (fst (main_step p s)) = distance p - 1"
  by (cases p)
     (auto simp: during_stop_def task_live others_retired_update simp del: step.simps)

lemma during_other:
  assumes "during_stop i p s" and "j \<noteq> i"
  shows "during_stop i p (step (Task j) s)"
proof -
  have "others_retired i (tasks s)"
    using assms(1) by (simp add: during_stop_def)
  from other_task[OF this assms(2)] show ?thesis
    using assms by (auto simp: during_stop_def others_retired_gone simp del: step.simps)
qed

lemma after_user: "after_stop i s \<Longrightarrow> user_step s = s"
  by (simp add: after_stop_def user_step_def)

lemma after_task: "after_stop i s \<Longrightarrow> after_stop i (step (Task j) s)"
proof (cases "j = i")
  case True
  assume "after_stop i s"
  then show ?thesis
    unfolding True
    by (auto simp: after_stop_def task_live others_retired_update simp del: step.simps)
next
  case False
  assume b: "after_stop i s"
  then have "others_retired i (tasks s)"
    by (simp add: after_stop_def)
  from other_task[OF this False] show ?thesis
    using b False by (auto simp: after_stop_def others_retired_gone simp del: step.simps)
qed


lemma step_phase:
  assumes "before_stop i s \<or> (\<exists>p. during_stop i p s) \<or> after_stop i s"
  shows "before_stop i (step a s) \<or> (\<exists>p. during_stop i p (step a s))
           \<or> after_stop i (step a s)"
proof (cases a)
  case User
  from assms show ?thesis
  proof (elim disjE exE)
    assume "before_stop i s"
    then show ?thesis
      using before_user[of i s] User by auto
  next
    fix p assume "during_stop i p s"
    then show ?thesis
      using during_user[of i p s] User by (cases "0 < distance p") auto
  next
    assume "after_stop i s"
    then show ?thesis
      using after_user[of i s] User by simp
  qed
next
  case (Task j)
  from assms show ?thesis
  proof (elim disjE exE)
    assume "before_stop i s"
    then show ?thesis
      using before_task[of i s j] Task by simp
  next
    fix p assume "during_stop i p s"
    then show ?thesis
      using during_task[of i p s] during_other[of i p s j] Task by (cases "j = i") auto
  next
    assume "after_stop i s"
    then show ?thesis
      using after_task[of i s j] Task by simp
  qed
qed

lemma run_phase:
  "before_stop i s \<or> (\<exists>p. during_stop i p s) \<or> after_stop i s \<Longrightarrow>
   before_stop i (run sch s) \<or> (\<exists>p. during_stop i p (run sch s)) \<or> after_stop i (run sch s)"
proof (induction sch arbitrary: s)
  case Nil
  then show ?case by simp
next
  case (Cons a sch)
  from step_phase[OF Cons.prems, of a] show ?case
    by (simp add: Cons.IH)
qed

lemma run_drains:
  "(\<exists>p. during_stop i p s \<and> distance p \<le> count_list sch (Task i)) \<or> after_stop i s \<Longrightarrow>
   (\<exists>p. during_stop i p (run sch s) \<and> distance p = 0) \<or> after_stop i (run sch s)"
proof (induction sch arbitrary: s)
  case Nil
  then show ?case by auto
next
  case (Cons a sch)
  from Cons.prems show ?case
  proof (elim disjE exE conjE)
    assume "after_stop i s"
    then have "after_stop i (step a s)"
      using after_user[of i s] after_task[of i s] by (cases a) auto
    then show ?thesis
      using Cons.IH[of "step a s"] by simp
  next
    fix p assume d: "during_stop i p s" and le: "distance p \<le> count_list (a # sch) (Task i)"
    show ?thesis
    proof (cases a)
      case User
      show ?thesis
      proof (cases "0 < distance p")
        case True
        then have "step a s = s"
          using during_user[OF d] User by simp
        then show ?thesis
          using Cons.IH[of s] d le User by auto
      next
        case False
        then have "after_stop i (step a s)"
          using during_user[OF d] User by simp
        then show ?thesis
          using Cons.IH[of "step a s"] by simp
      qed
    next
      case (Task j)
      show ?thesis
      proof (cases "j = i")
        case True
        have "during_stop i (fst (main_step p s)) (step a s)"
          and "distance (fst (main_step p s)) \<le> count_list sch (Task i)"
          using during_task[OF d] le Task True by auto
        then show ?thesis
          using Cons.IH[of "step a s"] by auto
      next
        case False
        then have "during_stop i p (step a s)"
          using during_other[OF d] Task by simp
        moreover have "distance p \<le> count_list sch (Task i)"
          using le Task False by simp
        ultimately show ?thesis
          using Cons.IH[of "step a s"] by auto
      qed
    qed
  qed
qed

text \<open>
  Claim C8, as amended. The loop is running: \<open>f_begin\<close> is set, no stop is requested,
  the task at index \<open>i\<close> is at the loop test or inside the loop body, and it is the only
  task still in the loop (every other task of the object, left from an earlier run, has
  cleared the flags and has at most its own deletion left). The user calls \<^verbatim>\<open>end()\<close>.
  Whatever the scheduler does, once the call has returned both flags are clear and every
  task, the one at \<open>i\<close> included, has left the loop and has at most its own deletion
  left to do. And the call does return: when, after its store, the task at \<open>i\<close> gets
  at least four steps (the rest of the body, the test, the two stores), the next test of
  the waiting loop ends the call.
\<close>

theorem end_waits_for_running_loop:
  assumes "f_begin s" and "\<not> f_end s"
    and "i < length (tasks s)" and "tasks s ! i = AtTest \<or> tasks s ! i = InBody"
    and "others_retired i (tasks s)"
    and "pending s = [End]" and "\<not> polling s"
  shows "(\<forall>sch. pending (run sch s) = [] \<longrightarrow>
             \<not> f_begin (run sch s) \<and> \<not> f_end (run sch s)
           \<and> (\<forall>j<length (tasks (run sch s)).
                 tasks (run sch s) ! j = DeleteSelf \<or> tasks (run sch s) ! j = Gone))
       \<and> (\<forall>sch. 4 \<le> count_list sch (Task i) \<longrightarrow>
             pending (run (User # sch @ [User]) s) = [])"
proof -
  have b: "before_stop i s"
    using assms by (simp add: before_stop_def)
  have safe: "\<not> f_begin (run sch s) \<and> \<not> f_end (run sch s)
           \<and> (\<forall>j<length (tasks (run sch s)).
                 tasks (run sch s) ! j = DeleteSelf \<or> tasks (run sch s) ! j = Gone)"
    if r: "pending (run sch s) = []" for sch
  proof -
    have "before_stop i (run sch s) \<or> (\<exists>p. during_stop i p (run sch s))
            \<or> after_stop i (run sch s)"
      using b by (intro run_phase) simp
    then have "after_stop i (run sch s)"
      using r by (auto simp: before_stop_def during_stop_def)
    then show ?thesis
      by (auto simp: after_stop_def others_retired_def)
  qed
  have live: "pending (run (User # sch @ [User]) s) = []"
    if c: "4 \<le> count_list sch (Task i)" for sch
  proof -
    define p where "p = tasks s ! i"
    have d: "during_stop i p (user_step s)"
      using before_user[OF b] by (simp add: p_def)
    have "distance p \<le> 4"
      using assms(4) by (auto simp: p_def)
    then have "(\<exists>q. during_stop i q (run sch (user_step s)) \<and> distance q = 0)
               \<or> after_stop i (run sch (user_step s))"
      using d c by (intro run_drains) auto
    then have "after_stop i (user_step (run sch (user_step s)))"
      using during_user after_user by (metis less_numeral_extra(3))
    then show ?thesis
      by (simp add: run_append after_stop_def)
  qed
  show ?thesis
    using safe live by blast
qed

theorem end_waits_for_running_loop_witness:
  "tasks restarted_demo = [DeleteSelf, AtTest]
   \<and> pending (run (User # [Task 1, Task 0, Task 1, Task 1, Task 1] @ [User]) restarted_demo) = []
   \<and> \<not> f_begin (run (User # [Task 1, Task 0, Task 1, Task 1, Task 1] @ [User]) restarted_demo)
   \<and> \<not> f_end (run (User # [Task 1, Task 0, Task 1, Task 1, Task 1] @ [User]) restarted_demo)
   \<and> (tasks (run (User # [Task 1, Task 0, Task 1, Task 1, Task 1] @ [User]) restarted_demo) ! 1
          = DeleteSelf
      \<or> tasks (run (User # [Task 1, Task 0, Task 1, Task 1, Task 1] @ [User]) restarted_demo) ! 1
          = Gone)"
proof -
  have t: "tasks restarted_demo = [DeleteSelf, AtTest]"
    by (simp add: restarted_demo_def user_step_def begin_call_def)
  have h: "f_begin restarted_demo" "\<not> f_end restarted_demo"
    "pending restarted_demo = [End]" "\<not> polling restarted_demo"
    by (simp_all add: restarted_demo_def user_step_def begin_call_def)
  have i: "1 < length (tasks restarted_demo)"
    "tasks restarted_demo ! 1 = AtTest \<or> tasks restarted_demo ! 1 = InBody"
    "others_retired 1 (tasks restarted_demo)"
    by (simp_all add: t others_retired_def less_Suc_eq)
  have c: "4 \<le> count_list [Task 1, Task 0, Task 1, Task 1, Task 1] (Task 1)"
    by simp
  have len: "1 < length (tasks (run (User # [Task 1, Task 0, Task 1, Task 1, Task 1] @ [User])
                                 restarted_demo))"
    by (simp add: restarted_demo_def user_step_def begin_call_def)
  from end_waits_for_running_loop [OF h(1,2) i h(3,4)] c t len show ?thesis
    by blast
qed

end
